theory Spec2Isabelle
  imports Main "HOL-Library.Word"
begin

unbundle bit_operations_syntax

section \<open>The interning table of slice\_intern.cc\<close>

text \<open>
  The model follows \<^verbatim>\<open>src/core/lib/slice/slice_intern.cc\<close>. Entries live in a store
  that maps addresses to \<^verbatim>\<open>InternedSliceRefcount\<close> objects; \<^verbatim>\<open>nullptr\<close> is \<open>None\<close>.
  Every function that walks a bucket chain is a \<^theory_text>\<open>partial_function\<close> in the option
  monad: \<open>None\<close> is a walk that never ends (a cyclic chain), \<open>Some (Inl f)\<close> is
  undefined behaviour \<open>f\<close> of the C++ (a null or dangling pointer is dereferenced, an array
  is read out of range, a division by zero), \<open>Some (Inr x)\<close> is a normal return of \<open>x\<close>.
  The shard mutex is not modelled: every function is one sequential critical section.
  \<^verbatim>\<open>size_t\<close> values are natural numbers; the one subtraction (\<^verbatim>\<open>count--\<close>) has its
  wrap-around written out.
\<close>

subsection \<open>Data\<close>

type_synonym uint8 = "8 word"
type_synonym uint32 = "32 word"
type_synonym addr = nat
type_synonym ptr = "addr option"

datatype fault = NullDeref | DanglingDeref | OutOfBounds | DivByZero

type_synonym 'a outcome = "(fault + 'a) option"

text \<open>
  \<^verbatim>\<open>struct InternedSliceRefcount\<close> (declared in slice\_internal.h): the fields the
  source file reads and writes, and the payload of \<^verbatim>\<open>length\<close> bytes that follows the
  header (\<^verbatim>\<open>s + 1\<close>).
\<close>

record InternedSliceRefcount =
  length_f :: nat
  refcnt :: nat
  hash :: uint32
  bucket_next :: ptr
  payload :: "uint8 list"

type_synonym heap = "addr \<Rightarrow> InternedSliceRefcount option"

record slice_shard =
  strs :: "ptr list"
  count :: nat
  capacity :: nat

record globals =
  g_shards :: "slice_shard list"
  g_hash_seed :: uint32
  g_forced_hash_seed :: bool
  heap :: heap

definition LOG2_SHARD_COUNT :: nat where
  "LOG2_SHARD_COUNT = 5"

definition SHARD_COUNT :: nat where
  "SHARD_COUNT = push_bit LOG2_SHARD_COUNT 1"

definition INITIAL_SHARD_CAPACITY :: nat where
  "INITIAL_SHARD_CAPACITY = 8"

definition SIZE_MAX :: nat where
  "SIZE_MAX = 2 ^ 64 - 1"

text \<open>\<^verbatim>\<open>#define TABLE_IDX(hash, capacity) (((hash) >> LOG2_SHARD_COUNT) % (capacity))\<close>;
  the callers check \<open>capacity \<noteq> 0\<close> where the C++ would divide by zero.\<close>

definition TABLE_IDX :: "uint32 \<Rightarrow> nat \<Rightarrow> nat" where
  "TABLE_IDX hsh cap = unat (drop_bit LOG2_SHARD_COUNT hsh) mod cap"

text \<open>\<^verbatim>\<open>#define SHARD_IDX(hash) ((hash) & ((1 << LOG2_SHARD_COUNT) - 1))\<close>\<close>

definition SHARD_IDX :: "uint32 \<Rightarrow> nat" where
  "SHARD_IDX hsh = unat (hsh AND (push_bit LOG2_SHARD_COUNT 1 - 1))"

text \<open>\<^verbatim>\<open>grpc_core::InternedSlice::InternedSlice(InternedSliceRefcount* s)\<close>: the byte
  view of an entry, \<^verbatim>\<open>length\<close> bytes starting at \<^verbatim>\<open>s + 1\<close>.\<close>

definition InternedSlice :: "InternedSliceRefcount \<Rightarrow> uint8 list" where
  "InternedSlice s = take (length_f s) (payload s)"

text \<open>Modelled from the spec: \<^verbatim>\<open>grpc_core::IncrementIfNonzero\<close> (gprpp/atomic.h, not
  in the source tree). The spec: read the current value, if zero fail the match, else
  move it from current to current + 1.\<close>

definition IncrementIfNonzero :: "InternedSliceRefcount \<Rightarrow> InternedSliceRefcount option" where
  "IncrementIfNonzero s =
     (if refcnt s = 0 then None else Some (s\<lparr>refcnt := refcnt s + 1\<rparr>))"

text \<open>Modelled from the spec: the constructor
  \<^verbatim>\<open>InternedSliceRefcount(len, hash, bucket_next)\<close> (slice\_internal.h, not in the source
  tree) stores its three arguments and, by the spec, sets the refcount to 1. The payload
  argument is what \<^verbatim>\<open>InternNewStringLocked\<close> copies behind the header.\<close>

definition new_InternedSliceRefcount ::
  "nat \<Rightarrow> uint32 \<Rightarrow> ptr \<Rightarrow> uint8 list \<Rightarrow> InternedSliceRefcount" where
  "new_InternedSliceRefcount len hsh nxt bs =
     \<lparr>length_f = len, refcnt = 1, hash = hsh, bucket_next = nxt, payload = bs\<rparr>"

subsection \<open>The destructor: unlinking an entry\<close>

text \<open>Where \<^verbatim>\<open>prev_next\<close> points: at a slot of the bucket array, or at the
  \<^verbatim>\<open>bucket_next\<close> field of an entry.\<close>

datatype slot = Bucket nat | NextOf addr

text \<open>The \<^verbatim>\<open>for\<close> loop of the destructor (lines 64 to 67). It ends when \<^verbatim>\<open>cur == this\<close>;
  otherwise it evaluates \<^verbatim>\<open>cur->bucket_next\<close>, whatever \<^verbatim>\<open>cur\<close> is.\<close>

partial_function (option) unlink_scan :: "heap \<Rightarrow> addr \<Rightarrow> slot \<Rightarrow> ptr \<Rightarrow> slot outcome" where
  "unlink_scan h this prev_next cur =
     (if cur = Some this then Some (Inr prev_next)
      else (case cur of
              None \<Rightarrow> Some (Inl NullDeref)
            | Some c \<Rightarrow>
                (case h c of
                   None \<Rightarrow> Some (Inl DanglingDeref)
                 | Some e \<Rightarrow> unlink_scan h this (NextOf c) (bucket_next e))))"

text \<open>\<^verbatim>\<open>InternedSliceRefcount::~InternedSliceRefcount()\<close>, lines 59 to 70. The object
  itself is not freed here (its caller does that).\<close>

definition InternedSliceRefcount_dtor :: "addr \<Rightarrow> globals \<Rightarrow> globals outcome" where
  "InternedSliceRefcount_dtor this st =
     (case heap st this of
        None \<Rightarrow> Some (Inl DanglingDeref)
      | Some t \<Rightarrow>
          if \<not> SHARD_IDX (hash t) < length (g_shards st) then Some (Inl OutOfBounds)
          else
            let si = SHARD_IDX (hash t);
                shard = g_shards st ! si
            in
              if capacity shard = 0 then Some (Inl DivByZero)
              else if \<not> TABLE_IDX (hash t) (capacity shard) < length (strs shard)
              then Some (Inl OutOfBounds)
              else
                (case unlink_scan (heap st) this
                        (Bucket (TABLE_IDX (hash t) (capacity shard)))
                        (strs shard ! TABLE_IDX (hash t) (capacity shard)) of
                   None \<Rightarrow> None
                 | Some (Inl f) \<Rightarrow> Some (Inl f)
                 | Some (Inr prev_next) \<Rightarrow>
                     let count' = (if count shard = 0 then SIZE_MAX else count shard - 1)
                     in
                       (case prev_next of
                          Bucket i \<Rightarrow>
                            Some (Inr (st\<lparr>g_shards := (g_shards st)
                              [si := shard\<lparr>strs := (strs shard)[i := bucket_next t],
                                           count := count'\<rparr>]\<rparr>))
                        | NextOf c \<Rightarrow>
                            (case heap st c of
                               None \<Rightarrow> Some (Inl DanglingDeref)
                             | Some e \<Rightarrow>
                                 Some (Inr (st\<lparr>heap := (heap st)
                                                (c \<mapsto> e\<lparr>bucket_next := bucket_next t\<rparr>),
                                              g_shards := (g_shards st)
                                                [si := shard\<lparr>count := count'\<rparr>]\<rparr>))))))"

subsection \<open>Growing a shard\<close>

text \<open>The inner loop of \<^verbatim>\<open>grow_shard\<close> (lines 86 to 91): every entry of one old chain
  is pushed on the front of its chain in the new array.\<close>

partial_function (option) grow_chain ::
  "nat \<Rightarrow> ptr \<Rightarrow> heap \<Rightarrow> ptr list \<Rightarrow> (heap \<times> ptr list) outcome" where
  "grow_chain cap s h strtab =
     (case s of
        None \<Rightarrow> Some (Inr (h, strtab))
      | Some a \<Rightarrow>
          (case h a of
             None \<Rightarrow> Some (Inl DanglingDeref)
           | Some e \<Rightarrow>
               if \<not> TABLE_IDX (hash e) cap < length strtab then Some (Inl OutOfBounds)
               else
                 grow_chain cap (bucket_next e)
                   (h(a \<mapsto> e\<lparr>bucket_next := strtab ! TABLE_IDX (hash e) cap\<rparr>))
                   (strtab[TABLE_IDX (hash e) cap := Some a])))"

text \<open>The outer loop (line 85), \<open>k\<close> iterations starting at bucket \<open>i\<close>.\<close>

fun grow_buckets ::
  "nat \<Rightarrow> nat \<Rightarrow> ptr list \<Rightarrow> nat \<Rightarrow> heap \<Rightarrow> ptr list \<Rightarrow> (heap \<times> ptr list) outcome" where
  "grow_buckets 0 i old cap h strtab = Some (Inr (h, strtab))"
| "grow_buckets (Suc k) i old cap h strtab =
     (if \<not> i < length old then Some (Inl OutOfBounds)
      else
        (case grow_chain cap (old ! i) h strtab of
           None \<Rightarrow> None
         | Some (Inl f) \<Rightarrow> Some (Inl f)
         | Some (Inr (h', strtab')) \<Rightarrow> grow_buckets k (Suc i) old cap h' strtab'))"

text \<open>\<^verbatim>\<open>grow_shard\<close>, lines 74 to 96. The new array comes from \<^verbatim>\<open>gpr_zalloc\<close>: every
  slot is null. The loop body runs only when the old capacity is positive, so the new
  capacity it divides by is positive too.\<close>

definition grow_shard :: "heap \<Rightarrow> slice_shard \<Rightarrow> (heap \<times> slice_shard) outcome" where
  "grow_shard h shard =
     (let capacity' = capacity shard * 2;
          strtab = replicate capacity' None
      in
        (case grow_buckets (capacity shard) 0 (strs shard) capacity' h strtab of
           None \<Rightarrow> None
         | Some (Inl f) \<Rightarrow> Some (Inl f)
         | Some (Inr (h', strtab')) \<Rightarrow>
             Some (Inr (h', shard\<lparr>strs := strtab', capacity := capacity'\<rparr>))))"

subsection \<open>Interning\<close>

text \<open>\<^verbatim>\<open>InternNewStringLocked\<close>, lines 141 to 163. \<open>new\<close> is the address \<^verbatim>\<open>gpr_malloc\<close>
  returned, \<open>si\<close> the index of \<^verbatim>\<open>shard\<close> in \<^verbatim>\<open>g_shards\<close>, \<open>args\<close> the bytes of the
  buffer (\<^verbatim>\<open>GetLength\<close> is their number).\<close>

definition InternNewStringLocked ::
  "addr \<Rightarrow> nat \<Rightarrow> nat \<Rightarrow> uint32 \<Rightarrow> uint8 list \<Rightarrow> globals \<Rightarrow> (addr \<times> globals) outcome" where
  "InternNewStringLocked new si shard_idx hsh args st =
     (let shard = g_shards st ! si;
          len = length args
      in
        if \<not> shard_idx < length (strs shard) then Some (Inl OutOfBounds)
        else
          let s = new_InternedSliceRefcount len hsh (strs shard ! shard_idx)
                    (if 0 < len then take len args else []);
              h1 = (heap st)(new \<mapsto> s);
              shard1 = shard\<lparr>strs := (strs shard)[shard_idx := Some new],
                             count := count shard + 1\<rparr>
          in
            if capacity shard1 * 2 < count shard1
            then
              (case grow_shard h1 shard1 of
                 None \<Rightarrow> None
               | Some (Inl f) \<Rightarrow> Some (Inl f)
               | Some (Inr (h2, shard2)) \<Rightarrow>
                   Some (Inr (new, st\<lparr>heap := h2, g_shards := (g_shards st)[si := shard2]\<rparr>)))
            else Some (Inr (new, st\<lparr>heap := h1, g_shards := (g_shards st)[si := shard1]\<rparr>)))"

text \<open>The loop of \<^verbatim>\<open>MatchInternedSliceLocked\<close> (lines 178 to 184). The comparison
  \<^verbatim>\<open>InternedSlice(s) == args\<close> (slice\_utils.h) is equality of the two byte sequences.\<close>

partial_function (option) match_scan ::
  "uint32 \<Rightarrow> uint8 list \<Rightarrow> ptr \<Rightarrow> heap \<Rightarrow> (ptr \<times> heap) outcome" where
  "match_scan hsh args s h =
     (case s of
        None \<Rightarrow> Some (Inr (None, h))
      | Some a \<Rightarrow>
          (case h a of
             None \<Rightarrow> Some (Inl DanglingDeref)
           | Some e \<Rightarrow>
               if hash e = hsh \<and> InternedSlice e = args
               then
                 (case IncrementIfNonzero e of
                    Some e' \<Rightarrow> Some (Inr (Some a, h(a \<mapsto> e')))
                  | None \<Rightarrow> match_scan hsh args (bucket_next e) h)
               else match_scan hsh args (bucket_next e) h))"

text \<open>\<^verbatim>\<open>MatchInternedSliceLocked\<close>, lines 171 to 186.\<close>

definition MatchInternedSliceLocked ::
  "uint32 \<Rightarrow> nat \<Rightarrow> uint8 list \<Rightarrow> globals \<Rightarrow> (ptr \<times> globals) outcome" where
  "MatchInternedSliceLocked hsh idx args st =
     (if \<not> SHARD_IDX hsh < length (g_shards st) then Some (Inl OutOfBounds)
      else
        let shard = g_shards st ! SHARD_IDX hsh
        in
          if \<not> idx < length (strs shard) then Some (Inl OutOfBounds)
          else
            (case match_scan hsh args (strs shard ! idx) (heap st) of
               None \<Rightarrow> None
             | Some (Inl f) \<Rightarrow> Some (Inl f)
             | Some (Inr (s, h')) \<Rightarrow> Some (Inr (s, st\<lparr>heap := h'\<rparr>))))"

text \<open>\<^verbatim>\<open>FindOrCreateInternedSlice\<close>, lines 196 to 207.\<close>

definition FindOrCreateInternedSlice ::
  "addr \<Rightarrow> uint32 \<Rightarrow> uint8 list \<Rightarrow> globals \<Rightarrow> (addr \<times> globals) outcome" where
  "FindOrCreateInternedSlice new hsh args st =
     (if \<not> SHARD_IDX hsh < length (g_shards st) then Some (Inl OutOfBounds)
      else
        let shard = g_shards st ! SHARD_IDX hsh
        in
          if capacity shard = 0 then Some (Inl DivByZero)
          else
            let idx = TABLE_IDX hsh (capacity shard)
            in
              (case MatchInternedSliceLocked hsh idx args st of
                 None \<Rightarrow> None
               | Some (Inl f) \<Rightarrow> Some (Inl f)
               | Some (Inr (s, st1)) \<Rightarrow>
                   (case s of
                      Some a \<Rightarrow> Some (Inr (a, st1))
                    | None \<Rightarrow> InternNewStringLocked new (SHARD_IDX hsh) idx hsh args st1)))"

text \<open>\<^verbatim>\<open>ManagedMemorySlice(const char* buf, size_t len)\<close>, lines 213 to 218.
  \<open>gpr_murmur_hash3\<close> (murmur\_hash.h) is a parameter.\<close>

definition ManagedMemorySlice ::
  "(uint8 list \<Rightarrow> uint32 \<Rightarrow> uint32) \<Rightarrow> addr \<Rightarrow> uint8 list \<Rightarrow> globals \<Rightarrow> (addr \<times> globals) outcome" where
  "ManagedMemorySlice gpr_murmur_hash3 new buf st =
     FindOrCreateInternedSlice new (gpr_murmur_hash3 buf (g_hash_seed st)) buf st"

subsection \<open>Initialisation and the seed\<close>

text \<open>\<^verbatim>\<open>grpc_test_only_set_slice_hash_seed\<close>, lines 227 to 230.\<close>

definition grpc_test_only_set_slice_hash_seed :: "uint32 \<Rightarrow> globals \<Rightarrow> globals" where
  "grpc_test_only_set_slice_hash_seed seed st =
     st\<lparr>g_hash_seed := seed, g_forced_hash_seed := True\<rparr>"

text \<open>\<^verbatim>\<open>grpc_slice_intern_init\<close>, lines 232 to 245. \<open>tv_nsec\<close> is the nanosecond field of
  \<^verbatim>\<open>gpr_now(GPR_CLOCK_REALTIME)\<close>; the cast to \<^verbatim>\<open>uint32_t\<close> is \<open>word_of_int\<close>.\<close>

definition grpc_slice_intern_init :: "int \<Rightarrow> globals \<Rightarrow> globals" where
  "grpc_slice_intern_init tv_nsec st =
     st\<lparr>g_hash_seed :=
          (if \<not> g_forced_hash_seed st then word_of_int tv_nsec else g_hash_seed st),
        g_shards :=
          map (\<lambda>i. \<lparr>strs = replicate INITIAL_SHARD_CAPACITY None, count = 0,
                    capacity = INITIAL_SHARD_CAPACITY\<rparr>) [0..<SHARD_COUNT]\<rparr>"

subsection \<open>Shutdown\<close>

text \<open>What \<^verbatim>\<open>grpc_slice_intern_shutdown\<close> does to the outside world, in order: the two
  \<^verbatim>\<open>gpr_log\<close> calls (the format and its argument), the calls of \<^verbatim>\<open>gpr_free\<close> on a
  dumped text and on the bucket array of shard \<open>i\<close>, \<^verbatim>\<open>abort()\<close>, and
  \<^verbatim>\<open>delete[] g_shards\<close>.\<close>

datatype event =
    Log_warning nat
  | Log_leaked string
  | Gpr_free_text
  | Gpr_free_strs nat
  | Abort
  | Delete_g_shards

text \<open>The loop over one chain, lines 255 to 260. \<open>dump\<close> is
  \<^verbatim>\<open>grpc_dump_slice(_, GPR_DUMP_HEX | GPR_DUMP_ASCII)\<close> (slice\_string\_helpers.h), a
  parameter.\<close>

partial_function (option) dump_chain ::
  "(uint8 list \<Rightarrow> string) \<Rightarrow> ptr \<Rightarrow> heap \<Rightarrow> event list \<Rightarrow> event list outcome" where
  "dump_chain dump s h evs =
     (case s of
        None \<Rightarrow> Some (Inr evs)
      | Some a \<Rightarrow>
          (case h a of
             None \<Rightarrow> Some (Inl DanglingDeref)
           | Some e \<Rightarrow>
               dump_chain dump (bucket_next e) h
                 (evs @ [Log_leaked (dump (InternedSlice e)), Gpr_free_text])))"

text \<open>The loop over the buckets of one shard, line 254: \<open>k\<close> iterations from bucket
  \<open>j\<close>.\<close>

fun dump_buckets ::
  "(uint8 list \<Rightarrow> string) \<Rightarrow> nat \<Rightarrow> nat \<Rightarrow> slice_shard \<Rightarrow> heap \<Rightarrow> event list
     \<Rightarrow> event list outcome" where
  "dump_buckets dump 0 j shard h evs = Some (Inr evs)"
| "dump_buckets dump (Suc k) j shard h evs =
     (if \<not> j < length (strs shard) then Some (Inl OutOfBounds)
      else
        (case dump_chain dump (strs shard ! j) h evs of
           None \<Rightarrow> None
         | Some (Inl f) \<Rightarrow> Some (Inl f)
         | Some (Inr evs') \<Rightarrow> dump_buckets dump k (Suc j) shard h evs'))"

text \<open>The loop over the shards, lines 248 to 267: \<open>k\<close> iterations from shard \<open>i\<close>.
  \<open>abort_on_leaks\<close> is what \<^verbatim>\<open>grpc_iomgr_abort_on_leaks()\<close> returns. The result says
  whether the process was aborted.\<close>

fun shutdown_shards ::
  "(uint8 list \<Rightarrow> string) \<Rightarrow> bool \<Rightarrow> nat \<Rightarrow> nat \<Rightarrow> globals \<Rightarrow> event list
     \<Rightarrow> (event list \<times> bool) outcome" where
  "shutdown_shards dump abort_on_leaks 0 i st evs = Some (Inr (evs, False))"
| "shutdown_shards dump abort_on_leaks (Suc k) i st evs =
     (if \<not> i < length (g_shards st) then Some (Inl OutOfBounds)
      else if count (g_shards st ! i) \<noteq> 0
      then
        (case dump_buckets dump (capacity (g_shards st ! i)) 0 (g_shards st ! i) (heap st)
                (evs @ [Log_warning (count (g_shards st ! i))]) of
           None \<Rightarrow> None
         | Some (Inl f) \<Rightarrow> Some (Inl f)
         | Some (Inr evs') \<Rightarrow>
             if abort_on_leaks then Some (Inr (evs' @ [Abort], True))
             else shutdown_shards dump abort_on_leaks k (Suc i) st (evs' @ [Gpr_free_strs i]))
      else shutdown_shards dump abort_on_leaks k (Suc i) st (evs @ [Gpr_free_strs i]))"

text \<open>\<^verbatim>\<open>grpc_slice_intern_shutdown\<close>, lines 247 to 269. It returns the events and, when
  the process was not aborted, the state it leaves: the shard array is gone (every later
  access through \<^verbatim>\<open>g_shards\<close> is out of bounds), the entries are where they were.\<close>

definition grpc_slice_intern_shutdown ::
  "(uint8 list \<Rightarrow> string) \<Rightarrow> bool \<Rightarrow> globals \<Rightarrow> (event list \<times> globals option) outcome" where
  "grpc_slice_intern_shutdown dump abort_on_leaks st =
     (case shutdown_shards dump abort_on_leaks SHARD_COUNT 0 st [] of
        None \<Rightarrow> None
      | Some (Inl f) \<Rightarrow> Some (Inl f)
      | Some (Inr (evs, aborted)) \<Rightarrow>
          if aborted then Some (Inr (evs, None))
          else Some (Inr (evs @ [Delete_g_shards], Some (st\<lparr>g_shards := []\<rparr>))))"

subsection \<open>Sequences of calls\<close>

datatype call =
    Call_init int
  | Call_set_seed uint32
  | Call_intern addr "uint8 list"
  | Call_dtor addr
  | Call_shutdown bool

text \<open>One call from a state; \<open>None\<close> when the call does not return (it runs forever, it
  is undefined behaviour, or the process is aborted).\<close>

fun step ::
  "(uint8 list \<Rightarrow> uint32 \<Rightarrow> uint32) \<Rightarrow> (uint8 list \<Rightarrow> string) \<Rightarrow> call \<Rightarrow> globals \<Rightarrow> globals option" where
  "step H dump (Call_init tv_nsec) st = Some (grpc_slice_intern_init tv_nsec st)"
| "step H dump (Call_set_seed seed) st = Some (grpc_test_only_set_slice_hash_seed seed st)"
| "step H dump (Call_intern new buf) st =
     (case ManagedMemorySlice H new buf st of
        Some (Inr (a, st')) \<Rightarrow> Some st'
      | _ \<Rightarrow> None)"
| "step H dump (Call_dtor this) st =
     (case InternedSliceRefcount_dtor this st of
        Some (Inr st') \<Rightarrow> Some st'
      | _ \<Rightarrow> None)"
| "step H dump (Call_shutdown abort_on_leaks) st =
     (case grpc_slice_intern_shutdown dump abort_on_leaks st of
        Some (Inr (evs, Some st')) \<Rightarrow> Some st'
      | _ \<Rightarrow> None)"

fun run ::
  "(uint8 list \<Rightarrow> uint32 \<Rightarrow> uint32) \<Rightarrow> (uint8 list \<Rightarrow> string) \<Rightarrow> call list \<Rightarrow> globals \<Rightarrow> globals option" where
  "run H dump [] st = Some st"
| "run H dump (c # cs) st =
     (case step H dump c st of None \<Rightarrow> None | Some st' \<Rightarrow> run H dump cs st')"

section \<open>Chains, the table invariant and what the proofs need\<close>

text \<open>The bucket chain that starts at pointer \<open>p\<close> in store \<open>h\<close> is the list of addresses \<open>xs\<close>:
  every address holds an entry, \<^verbatim>\<open>bucket_next\<close> of each is the next, the last one has a null
  \<^verbatim>\<open>bucket_next\<close>.\<close>

fun chain :: "heap \<Rightarrow> ptr \<Rightarrow> addr list \<Rightarrow> bool" where
  "chain h p [] = (p = None)"
| "chain h p (a # as) =
     (p = Some a \<and> (case h a of None \<Rightarrow> False | Some e \<Rightarrow> chain h (bucket_next e) as))"

text \<open>The entries reachable from \<open>p\<close> (none when the chain from \<open>p\<close> does not end).\<close>

definition reach :: "heap \<Rightarrow> ptr \<Rightarrow> addr set" where
  "reach h p = {a. \<exists>xs. chain h p xs \<and> a \<in> set xs}"

text \<open>What the scan of \<^verbatim>\<open>MatchInternedSliceLocked\<close> accepts: the hash, the bytes, a nonzero
  refcount.\<close>

definition matches :: "uint32 \<Rightarrow> uint8 list \<Rightarrow> heap \<Rightarrow> addr \<Rightarrow> bool" where
  "matches hsh args h a =
     (case h a of None \<Rightarrow> False
      | Some e \<Rightarrow> hash e = hsh \<and> InternedSlice e = args \<and> refcnt e \<noteq> 0)"

text \<open>The store after one more reference to the entry at \<open>a\<close>.\<close>

definition ref_entry :: "heap \<Rightarrow> addr \<Rightarrow> heap" where
  "ref_entry h a = (case h a of None \<Rightarrow> h | Some e \<Rightarrow> h(a \<mapsto> e\<lparr>refcnt := refcnt e + 1\<rparr>))"

text \<open>A store with every \<^verbatim>\<open>bucket_next\<close> forgotten: two stores with the same \<open>erase\<close> hold
  the same entries at the same addresses, with the same bytes, lengths, hashes and
  refcounts, and differ in links only.\<close>

definition erase :: "heap \<Rightarrow> heap" where
  "erase h = (\<lambda>a. map_option (\<lambda>e. e\<lparr>bucket_next := None\<rparr>) (h a))"

text \<open>The loop invariant of \<^verbatim>\<open>grow_shard\<close>: the new array has \<open>nc\<close> buckets, each a chain
  of entries of \<open>S\<close> whose hash selects that bucket, and every entry of \<open>S\<close> is in one.\<close>

definition newtab_ok :: "heap \<Rightarrow> nat \<Rightarrow> ptr list \<Rightarrow> addr set \<Rightarrow> bool" where
  "newtab_ok h nc t S \<longleftrightarrow>
     length t = nc \<and>
     (\<forall>j<nc. \<exists>ys. chain h (t ! j) ys \<and> set ys \<subseteq> S \<and>
        (\<forall>a\<in>set ys. \<exists>e. h a = Some e \<and> TABLE_IDX (hash e) nc = j)) \<and>
     S \<subseteq> (\<Union>j<nc. reach h (t ! j))"

text \<open>An entry that is where it belongs: its hash is the hash of its bytes under the seed,
  its length field is the size of its payload, its hash selects shard \<open>si\<close> and bucket
  \<open>i\<close> of a shard of capacity \<open>cap\<close>.\<close>

definition entry_ok ::
  "(uint8 list \<Rightarrow> uint32 \<Rightarrow> uint32) \<Rightarrow> uint32 \<Rightarrow> nat \<Rightarrow> nat \<Rightarrow> nat \<Rightarrow> InternedSliceRefcount \<Rightarrow> bool" where
  "entry_ok H seed si cap i e \<longleftrightarrow>
     hash e = H (InternedSlice e) seed \<and> length_f e = length (payload e) \<and>
     SHARD_IDX (hash e) = si \<and> TABLE_IDX (hash e) cap = i"

text \<open>The entries reachable from the bucket array of a shard.\<close>

definition shard_entries :: "heap \<Rightarrow> slice_shard \<Rightarrow> addr set" where
  "shard_entries h sh = (\<Union>i<length (strs sh). reach h (strs sh ! i))"

text \<open>An entry with a nonzero refcount.\<close>

definition live :: "heap \<Rightarrow> addr \<Rightarrow> bool" where
  "live h a = (case h a of None \<Rightarrow> False | Some e \<Rightarrow> refcnt e \<noteq> 0)"

text \<open>The bytes of the entry at an address.\<close>

definition content :: "heap \<Rightarrow> addr \<Rightarrow> uint8 list" where
  "content h a = (case h a of None \<Rightarrow> [] | Some e \<Rightarrow> InternedSlice e)"

text \<open>No two live entries of \<open>S\<close> have the same bytes.\<close>

definition unique_live :: "heap \<Rightarrow> addr set \<Rightarrow> bool" where
  "unique_live h S \<longleftrightarrow>
     (\<forall>a\<in>S. \<forall>b\<in>S. live h a \<and> live h b \<and> content h a = content h b \<longrightarrow> a = b)"

text \<open>The invariant of shard number \<open>si\<close>: a positive capacity, a bucket array of that
  length, every bucket a chain that ends and holds entries that belong there, \<open>count\<close>
  the number of entries reachable, no two live entries with the same bytes.\<close>

definition shard_ok ::
  "(uint8 list \<Rightarrow> uint32 \<Rightarrow> uint32) \<Rightarrow> uint32 \<Rightarrow> heap \<Rightarrow> nat \<Rightarrow> slice_shard \<Rightarrow> bool" where
  "shard_ok H seed h si sh \<longleftrightarrow>
     0 < capacity sh \<and> length (strs sh) = capacity sh \<and>
     (\<forall>i<capacity sh. \<exists>xs. chain h (strs sh ! i) xs \<and>
        (\<forall>a\<in>set xs. \<exists>e. h a = Some e \<and> entry_ok H seed si (capacity sh) i e)) \<and>
     count sh = card (shard_entries h sh) \<and>
     unique_live h (shard_entries h sh)"

text \<open>The entries reachable from the table.\<close>

definition table_entries :: "globals \<Rightarrow> addr set" where
  "table_entries st = (\<Union>si<length (g_shards st). shard_entries (heap st) (g_shards st ! si))"

text \<open>The invariant of the table: \<^verbatim>\<open>SHARD_COUNT\<close> shards, each with its invariant. \<open>H\<close> is
  the hash function (\<^verbatim>\<open>gpr_murmur_hash3\<close>).\<close>

definition table_inv :: "(uint8 list \<Rightarrow> uint32 \<Rightarrow> uint32) \<Rightarrow> globals \<Rightarrow> bool" where
  "table_inv H st \<longleftrightarrow>
     length (g_shards st) = SHARD_COUNT \<and>
     (\<forall>si<SHARD_COUNT. shard_ok H (g_hash_seed st) (heap st) si (g_shards st ! si))"

text \<open>The entry at \<open>a\<close> is in both stores with the same link, hash, length and payload, and
  is live in both or in neither.\<close>

definition kept :: "heap \<Rightarrow> heap \<Rightarrow> addr \<Rightarrow> bool" where
  "kept h h' a \<longleftrightarrow>
     (\<exists>e e'. h a = Some e \<and> h' a = Some e' \<and> bucket_next e' = bucket_next e \<and>
        hash e' = hash e \<and> length_f e' = length_f e \<and> payload e' = payload e \<and>
        (refcnt e' = 0 \<longleftrightarrow> refcnt e = 0))"

text \<open>The entry \<^verbatim>\<open>InternNewStringLocked\<close> builds for the buffer \<open>args\<close>.\<close>

definition new_entry :: "uint32 \<Rightarrow> ptr \<Rightarrow> uint8 list \<Rightarrow> InternedSliceRefcount" where
  "new_entry hsh nxt args =
     new_InternedSliceRefcount (length args) hsh nxt
       (if 0 < length args then take (length args) args else [])"

text \<open>What a creating call of \<^verbatim>\<open>FindOrCreateInternedSlice\<close> leaves: the seed and the flag as
  they were, the other shards as they were, the shard of the hash with one more entry (the
  new one), one more in its count and its capacity doubled or not, and a store that
  differs from the old one with the new entry added in links only.\<close>

definition create_post :: "addr \<Rightarrow> uint32 \<Rightarrow> uint8 list \<Rightarrow> globals \<Rightarrow> globals \<Rightarrow> bool" where
  "create_post new hsh args st st' \<longleftrightarrow>
     g_hash_seed st' = g_hash_seed st \<and> g_forced_hash_seed st' = g_forced_hash_seed st \<and>
     length (g_shards st') = length (g_shards st) \<and>
     (\<forall>sj. sj \<noteq> SHARD_IDX hsh \<longrightarrow> g_shards st' ! sj = g_shards st ! sj) \<and>
     capacity (g_shards st' ! SHARD_IDX hsh) =
       (if capacity (g_shards st ! SHARD_IDX hsh) * 2 < count (g_shards st ! SHARD_IDX hsh) + 1
        then 2 * capacity (g_shards st ! SHARD_IDX hsh)
        else capacity (g_shards st ! SHARD_IDX hsh)) \<and>
     count (g_shards st' ! SHARD_IDX hsh) = count (g_shards st ! SHARD_IDX hsh) + 1 \<and>
     (\<forall>sj<length (g_shards st).
        shard_entries (heap st') (g_shards st' ! sj) =
          (if sj = SHARD_IDX hsh
           then insert new (shard_entries (heap st) (g_shards st ! sj))
           else shard_entries (heap st) (g_shards st ! sj))) \<and>
     erase (heap st') =
       erase ((heap st)(new \<mapsto> new_entry hsh
          (strs (g_shards st ! SHARD_IDX hsh) !
             TABLE_IDX hsh (capacity (g_shards st ! SHARD_IDX hsh))) args))"

text \<open>What the destructor of an entry of the table leaves: the seed, the flag and the
  capacities as they were, the entry gone from the entries of its shard, whose count is one
  less, and a store that differs from the old one in links only.\<close>

definition dtor_post :: "addr \<Rightarrow> globals \<Rightarrow> globals \<Rightarrow> bool" where
  "dtor_post this st st' \<longleftrightarrow>
     g_hash_seed st' = g_hash_seed st \<and> g_forced_hash_seed st' = g_forced_hash_seed st \<and>
     length (g_shards st') = length (g_shards st) \<and>
     (\<forall>sj<length (g_shards st).
        capacity (g_shards st' ! sj) = capacity (g_shards st ! sj) \<and>
        shard_entries (heap st') (g_shards st' ! sj) =
          shard_entries (heap st) (g_shards st ! sj) - {this} \<and>
        count (g_shards st' ! sj) =
          (if this \<in> shard_entries (heap st) (g_shards st ! sj)
           then count (g_shards st ! sj) - 1 else count (g_shards st ! sj))) \<and>
     erase (heap st') = erase (heap st)"

text \<open>The chain from \<open>p\<close>, the addresses of a shard in the order shutdown visits them, and
  those of the table.\<close>

definition the_chain :: "heap \<Rightarrow> ptr \<Rightarrow> addr list" where
  "the_chain h p = (THE xs. chain h p xs)"

definition shard_addrs :: "heap \<Rightarrow> slice_shard \<Rightarrow> addr list" where
  "shard_addrs h sh = concat (map (\<lambda>j. the_chain h (strs sh ! j)) [0..<length (strs sh)])"

definition table_addrs :: "globals \<Rightarrow> addr list" where
  "table_addrs st = concat (map (shard_addrs (heap st)) (g_shards st))"

text \<open>What shutdown emits for the entries \<open>xs\<close>: for each, the LEAKED line with the dump of its
  bytes, and the release of the dumped text.\<close>

definition leak_lines :: "(uint8 list \<Rightarrow> string) \<Rightarrow> heap \<Rightarrow> addr list \<Rightarrow> event list" where
  "leak_lines dump h xs =
     concat (map (\<lambda>a. [Log_leaked (dump (content h a)), Gpr_free_text]) xs)"

text \<open>What the loop of shutdown emits for the shards \<open>shs\<close>, numbered from \<open>i\<close>, and whether
  it aborts.\<close>

fun shards_events ::
  "(uint8 list \<Rightarrow> string) \<Rightarrow> bool \<Rightarrow> heap \<Rightarrow> nat \<Rightarrow> slice_shard list \<Rightarrow> event list \<times> bool" where
  "shards_events dump aol h i [] = ([], False)"
| "shards_events dump aol h i (sh # shs) =
     (if count sh \<noteq> 0
      then
        (if aol then (Log_warning (count sh) # leak_lines dump h (shard_addrs h sh) @ [Abort], True)
         else (Log_warning (count sh) # leak_lines dump h (shard_addrs h sh) @
                 Gpr_free_strs i # fst (shards_events dump aol h (Suc i) shs),
               snd (shards_events dump aol h (Suc i) shs)))
      else (Gpr_free_strs i # fst (shards_events dump aol h (Suc i) shs),
            snd (shards_events dump aol h (Suc i) shs)))"

text \<open>The texts of the LEAKED lines, the shards whose bucket arrays are freed, and the counts
  of the WARNING lines of a sequence of events, in order.\<close>

definition leaked_texts :: "event list \<Rightarrow> string list" where
  "leaked_texts evs = concat (map (\<lambda>e. case e of Log_leaked t \<Rightarrow> [t] | _ \<Rightarrow> []) evs)"

definition freed_strs :: "event list \<Rightarrow> nat list" where
  "freed_strs evs = concat (map (\<lambda>e. case e of Gpr_free_strs i \<Rightarrow> [i] | _ \<Rightarrow> []) evs)"

definition warnings :: "event list \<Rightarrow> nat list" where
  "warnings evs = concat (map (\<lambda>e. case e of Log_warning n \<Rightarrow> [n] | _ \<Rightarrow> []) evs)"

text \<open>The statics when the process starts: a null shard array, seed 0, no forced seed,
  nothing allocated.\<close>

definition process_start :: globals where
  "process_start = \<lparr>g_shards = [], g_hash_seed = 0, g_forced_hash_seed = False, heap = Map.empty\<rparr>"

text \<open>The seed most recently forced in a sequence of calls, \<open>s\<close> when there is none.\<close>

fun forced_seed :: "uint32 \<Rightarrow> call list \<Rightarrow> uint32" where
  "forced_seed s [] = s"
| "forced_seed s (Call_set_seed s' # cs) = forced_seed s' cs"
| "forced_seed s (c # cs) = forced_seed s cs"

text \<open>Concrete inputs for the witnesses: a hash function that maps a buffer to its
  length, so that \<open>[97]\<close> and \<open>[98]\<close> collide, and a dump that writes one character per
  byte.\<close>

definition H0 :: "uint8 list \<Rightarrow> uint32 \<Rightarrow> uint32" where
  "H0 b seed = of_nat (length b)"

definition dump0 :: "uint8 list \<Rightarrow> string" where
  "dump0 b = map (\<lambda>w. CHR ''x'') b"

definition collide_heap :: heap where
  "collide_heap =
     [0 \<mapsto> \<lparr>length_f = 1, refcnt = 1, hash = 1, bucket_next = None, payload = [97]\<rparr>,
      1 \<mapsto> \<lparr>length_f = 1, refcnt = 1, hash = 1, bucket_next = Some 0, payload = [98]\<rparr>]"

definition collide_state :: globals where
  "collide_state =
     \<lparr>g_shards = (replicate 32 \<lparr>strs = replicate 8 None, count = 0, capacity = 8\<rparr>)
        [1 := \<lparr>strs = (replicate 8 None)[0 := Some 1], count = 2, capacity = 8\<rparr>],
      g_hash_seed = 0, g_forced_hash_seed = False, heap = collide_heap\<rparr>"

text \<open>A sequence of intern calls, each with an address that is free when it is made.\<close>

fun fresh_interns :: "addr set \<Rightarrow> call list \<Rightarrow> bool" where
  "fresh_interns D [] = True"
| "fresh_interns D (Call_intern new buf # cs) = (new \<notin> D \<and> fresh_interns (insert new D) cs)"
| "fresh_interns D (c # cs) = False"

text \<open>A hash function that sends a buffer to 32 times its first byte: every buffer is in
  shard 0, and the bucket is the first byte modulo the capacity.\<close>

definition H32 :: "uint8 list \<Rightarrow> uint32 \<Rightarrow> uint32" where
  "H32 b seed = (case b of [] \<Rightarrow> 0 | x # xs \<Rightarrow> 32 * of_nat (unat x))"

definition cs16 :: "call list" where
  "cs16 = [Call_intern 0 [1], Call_intern 1 [2], Call_intern 2 [3], Call_intern 3 [4],
     Call_intern 4 [5], Call_intern 5 [6], Call_intern 6 [7], Call_intern 7 [8],
     Call_intern 8 [9], Call_intern 9 [10], Call_intern 10 [11], Call_intern 11 [12],
     Call_intern 12 [13], Call_intern 13 [14], Call_intern 14 [15], Call_intern 15 [16]]"

text \<open>Concrete states: after init and one intern of the empty buffer; after a second
  intern, of \<open>[97]\<close>, which goes to another shard; after init, one intern and the
  destructor of that entry (the object at address 0 is still allocated, its caller frees
  it).\<close>

definition leak1 :: globals where
  "leak1 =
     \<lparr>g_shards = (replicate 32 \<lparr>strs = replicate 8 None, count = 0, capacity = 8\<rparr>)
        [0 := \<lparr>strs = (replicate 8 None)[0 := Some 0], count = 1, capacity = 8\<rparr>],
      g_hash_seed = 0, g_forced_hash_seed = False,
      heap = [0 \<mapsto> \<lparr>length_f = 0, refcnt = 1, hash = 0, bucket_next = None, payload = []\<rparr>]\<rparr>"

definition leak2 :: globals where
  "leak2 =
     \<lparr>g_shards = (replicate 32 \<lparr>strs = replicate 8 None, count = 0, capacity = 8\<rparr>)
        [0 := \<lparr>strs = (replicate 8 None)[0 := Some 0], count = 1, capacity = 8\<rparr>,
         1 := \<lparr>strs = (replicate 8 None)[0 := Some 1], count = 1, capacity = 8\<rparr>],
      g_hash_seed = 0, g_forced_hash_seed = False,
      heap = [0 \<mapsto> \<lparr>length_f = 0, refcnt = 1, hash = 0, bucket_next = None, payload = []\<rparr>,
              1 \<mapsto> \<lparr>length_f = 1, refcnt = 1, hash = 1, bucket_next = None, payload = [97]\<rparr>]\<rparr>"

definition dropped :: globals where
  "dropped =
     \<lparr>g_shards = replicate 32 \<lparr>strs = replicate 8 None, count = 0, capacity = 8\<rparr>,
      g_hash_seed = 0, g_forced_hash_seed = False,
      heap = [0 \<mapsto> \<lparr>length_f = 0, refcnt = 1, hash = 0, bucket_next = None, payload = []\<rparr>]\<rparr>"

section \<open>Lemmas and the claims\<close>

lemma chain_unique: "chain h p xs \<Longrightarrow> chain h p ys \<Longrightarrow> xs = ys"
proof (induction xs arbitrary: p ys)
  case Nil
  then show ?case by (cases ys) auto
next
  case (Cons a as)
  then show ?case by (cases ys) (auto split: option.splits)
qed

lemma chain_suffix: "chain h p (us @ vs) \<Longrightarrow> \<exists>q. chain h q vs"
  by (induction us arbitrary: p) (auto split: option.splits)

lemma chain_distinct: "chain h p xs \<Longrightarrow> distinct xs"
proof (induction xs arbitrary: p)
  case Nil
  then show ?case by simp
next
  case (Cons a as)
  from Cons.prems obtain e where e: "h a = Some e" and tl: "chain h (bucket_next e) as"
    by (auto split: option.splits)
  have "a \<notin> set as"
  proof
    assume "a \<in> set as"
    then obtain us vs where as: "as = us @ a # vs" by (auto dest: split_list)
    with tl obtain q where "chain h q (a # vs)" using chain_suffix by blast
    with e have "chain h (bucket_next e) vs" by simp
    with tl have "as = vs" by (rule chain_unique)
    with as show False by simp
  qed
  with Cons.IH [OF tl] show ?case by simp
qed

lemma chain_cong:
  "\<forall>a\<in>set xs. map_option bucket_next (h' a) = map_option bucket_next (h a)
   \<Longrightarrow> chain h' p xs = chain h p xs"
proof (induction xs arbitrary: p)
  case Nil
  then show ?case by simp
next
  case (Cons a as)
  then show ?case by (cases "h a"; cases "h' a") auto
qed

lemma reach_chain: "chain h p xs \<Longrightarrow> reach h p = set xs"
  unfolding reach_def using chain_unique by blast

lemma chain_dom: "chain h p xs \<Longrightarrow> a \<in> set xs \<Longrightarrow> \<exists>e. h a = Some e"
  by (induction xs arbitrary: p) (auto split: option.splits)

lemma match_scan_chain:
  "chain h p xs \<Longrightarrow>
   match_scan hsh args p h =
     Some (Inr (case find (matches hsh args h) xs of
                  None \<Rightarrow> (None, h)
                | Some a \<Rightarrow> (Some a, ref_entry h a)))"
proof (induction xs arbitrary: p)
  case Nil
  then show ?case by (simp add: match_scan.simps)
next
  case (Cons a as)
  from Cons.prems obtain e where p: "p = Some a" and e: "h a = Some e"
    and tl: "chain h (bucket_next e) as"
    by (auto split: option.splits)
  have m: "matches hsh args h a \<longleftrightarrow> hash e = hsh \<and> InternedSlice e = args \<and> refcnt e \<noteq> 0"
    using e by (simp add: matches_def)
  show ?case
    using Cons.IH [OF tl] p e m
    by (subst match_scan.simps) (auto simp add: ref_entry_def IncrementIfNonzero_def)
qed

lemma SHARD_IDX_less: "SHARD_IDX hsh < SHARD_COUNT"
proof -
  have "unat (hsh AND 31) \<le> unat (31 :: uint32)"
    by (rule word_and_le1 [THEN word_le_nat_alt [THEN iffD1]])
  then show ?thesis by (simp add: SHARD_IDX_def SHARD_COUNT_def LOG2_SHARD_COUNT_def)
qed

lemma TABLE_IDX_less: "0 < cap \<Longrightarrow> TABLE_IDX hsh cap < cap"
  by (simp add: TABLE_IDX_def)

lemma SHARD_COUNT_32: "SHARD_COUNT = 32"
  by (simp add: SHARD_COUNT_def LOG2_SHARD_COUNT_def)

lemma eraseD:
  assumes "erase h' = erase h" "h a = Some e"
  shows "\<exists>e'. h' a = Some e' \<and> hash e' = hash e \<and> length_f e' = length_f e \<and>
           payload e' = payload e \<and> refcnt e' = refcnt e"
proof -
  from assms have "map_option (\<lambda>e. e\<lparr>bucket_next := None\<rparr>) (h' a) = Some (e\<lparr>bucket_next := None\<rparr>)"
    by (auto simp: erase_def dest: fun_cong [where x = a])
  then obtain e' where e': "h' a = Some e'" and eq: "e'\<lparr>bucket_next := None\<rparr> = e\<lparr>bucket_next := None\<rparr>"
    by auto
  have "hash e' = hash e"
    using arg_cong [OF eq, of hash] by simp
  moreover have "length_f e' = length_f e"
    using arg_cong [OF eq, of length_f] by simp
  moreover have "payload e' = payload e"
    using arg_cong [OF eq, of payload] by simp
  moreover have "refcnt e' = refcnt e"
    using arg_cong [OF eq, of refcnt] by simp
  ultimately show ?thesis using e' by simp
qed

lemma erase_upd_next:
  "h a = Some e \<Longrightarrow> erase (h(a \<mapsto> e\<lparr>bucket_next := q\<rparr>)) = erase h"
  by (auto simp: erase_def fun_eq_iff)

lemma newtab_ok_empty: "newtab_ok h nc (replicate nc None) {}"
  by (auto simp: newtab_ok_def intro: exI [where x = "[]"])

lemma newtab_ok_push:
  assumes ok: "newtab_ok h nc t S" and e: "h a = Some e" and a: "a \<notin> S" and nc: "0 < nc"
  shows "newtab_ok (h(a \<mapsto> e\<lparr>bucket_next := t ! TABLE_IDX (hash e) nc\<rparr>)) nc
           (t[TABLE_IDX (hash e) nc := Some a]) (insert a S)"
proof -
  let ?j0 = "TABLE_IDX (hash e) nc"
  let ?h = "h(a \<mapsto> e\<lparr>bucket_next := t ! ?j0\<rparr>)"
  let ?t = "t[?j0 := Some a]"
  have j0: "?j0 < nc" using nc by (rule TABLE_IDX_less)
  have len: "length t = nc" using ok by (simp add: newtab_ok_def)
  have keep: "chain ?h p ys = chain h p ys" if "a \<notin> set ys" for p ys
    using that by (intro chain_cong) auto
  have bucket: "\<exists>ys. chain ?h (?t ! j) ys \<and> set ys \<subseteq> insert a S \<and>
        (\<forall>b\<in>set ys. \<exists>e'. ?h b = Some e' \<and> TABLE_IDX (hash e') nc = j) \<and>
        reach h (t ! j) \<subseteq> set ys \<and> (j = ?j0 \<longrightarrow> a \<in> set ys)" if j: "j < nc" for j
  proof -
    from ok j obtain ys where ys: "chain h (t ! j) ys" "set ys \<subseteq> S"
      "\<forall>b\<in>set ys. \<exists>e'. h b = Some e' \<and> TABLE_IDX (hash e') nc = j"
      by (auto simp: newtab_ok_def)
    from ys a have notin: "a \<notin> set ys" by auto
    have r: "reach h (t ! j) = set ys" using ys(1) by (rule reach_chain)
    show ?thesis
    proof (cases "j = ?j0")
      case True
      have "chain ?h (?t ! j) (a # ys)"
        using True j len ys(1) notin by (simp add: keep)
      moreover have "\<forall>b\<in>set (a # ys). \<exists>e'. ?h b = Some e' \<and> TABLE_IDX (hash e') nc = j"
        using ys(3) True by auto
      ultimately show ?thesis using ys(2) r True
        by (intro exI [where x = "a # ys"]) auto
    next
      case False
      have "chain ?h (?t ! j) ys"
        using False j len ys(1) notin by (simp add: keep)
      moreover have "\<forall>b\<in>set ys. \<exists>e'. ?h b = Some e' \<and> TABLE_IDX (hash e') nc = j"
        using ys(3) notin by auto
      ultimately show ?thesis using ys(2) r False
        by (intro exI [where x = ys]) auto
    qed
  qed
  have sub: "insert a S \<subseteq> (\<Union>j<nc. reach ?h (?t ! j))"
  proof
    fix b assume b: "b \<in> insert a S"
    have "\<exists>j<nc. b \<in> reach h (t ! j) \<or> (j = ?j0 \<and> b = a)"
    proof (cases "b = a")
      case True
      with j0 show ?thesis by blast
    next
      case False
      with b ok show ?thesis by (auto simp: newtab_ok_def)
    qed
    then obtain j where j: "j < nc" and bj: "b \<in> reach h (t ! j) \<or> (j = ?j0 \<and> b = a)"
      by blast
    from bucket [OF j] obtain ys where ys: "chain ?h (?t ! j) ys" "reach h (t ! j) \<subseteq> set ys"
      "j = ?j0 \<longrightarrow> a \<in> set ys" by blast
    from bj ys(2,3) have "b \<in> set ys" by auto
    with ys(1) have "b \<in> reach ?h (?t ! j)" by (auto simp: reach_def)
    with j show "b \<in> (\<Union>j<nc. reach ?h (?t ! j))" by blast
  qed
  show ?thesis
    unfolding newtab_ok_def
  proof (intro conjI allI impI)
    show "length ?t = nc" using len by simp
  next
    fix j assume "j < nc"
    from bucket [OF this] show "\<exists>ys. chain ?h (?t ! j) ys \<and> set ys \<subseteq> insert a S \<and>
        (\<forall>b\<in>set ys. \<exists>e'. ?h b = Some e' \<and> TABLE_IDX (hash e') nc = j)"
      by blast
  next
    show "insert a S \<subseteq> (\<Union>j<nc. reach ?h (?t ! j))" by (rule sub)
  qed
qed

lemma grow_chain_ok:
  assumes "chain h s xs" "newtab_ok h nc t S" "set xs \<inter> S = {}" "0 < nc"
  shows "\<exists>h' t'. grow_chain nc s h t = Some (Inr (h', t')) \<and>
           newtab_ok h' nc t' (S \<union> set xs) \<and> erase h' = erase h \<and>
           (\<forall>a. a \<notin> set xs \<longrightarrow> h' a = h a)"
  using assms
proof (induction xs arbitrary: s h t S)
  case Nil
  then show ?case by (simp add: grow_chain.simps)
next
  case (Cons a as)
  from Cons.prems(1) obtain e where s: "s = Some a" and e: "h a = Some e"
    and tl: "chain h (bucket_next e) as"
    by (auto split: option.splits)
  let ?j0 = "TABLE_IDX (hash e) nc"
  let ?h = "h(a \<mapsto> e\<lparr>bucket_next := t ! ?j0\<rparr>)"
  let ?t = "t[?j0 := Some a]"
  from Cons.prems(1) have "distinct (a # as)" by (rule chain_distinct)
  then have a_as: "a \<notin> set as" by simp
  from Cons.prems(3) have a_S: "a \<notin> S" by simp
  have len: "length t = nc" using Cons.prems(2) by (simp add: newtab_ok_def)
  have j0: "?j0 < length t" using Cons.prems(4) len by (simp add: TABLE_IDX_less)
  have tl': "chain ?h (bucket_next e) as"
    using tl a_as by (subst chain_cong [where h = h]) auto
  have ok': "newtab_ok ?h nc ?t (insert a S)"
    using Cons.prems(2) e a_S Cons.prems(4) by (rule newtab_ok_push)
  have disj: "set as \<inter> insert a S = {}"
    using Cons.prems(3) a_as by auto
  from Cons.IH [OF tl' ok' disj Cons.prems(4)]
  obtain h' t' where r: "grow_chain nc (bucket_next e) ?h ?t = Some (Inr (h', t'))"
    "newtab_ok h' nc t' (insert a S \<union> set as)" "erase h' = erase ?h"
    "\<forall>b. b \<notin> set as \<longrightarrow> h' b = ?h b"
    by blast
  have "grow_chain nc s h t = Some (Inr (h', t'))"
    using s e j0 r(1) by (subst grow_chain.simps) simp
  moreover have "insert a S \<union> set as = S \<union> set (a # as)" by auto
  moreover have "erase ?h = erase h" using e by (rule erase_upd_next)
  ultimately show ?case using r(2,3,4) by auto
qed

lemma finite_reach: "finite (reach h p)"
proof (cases "\<exists>xs. chain h p xs")
  case True
  then obtain xs where "chain h p xs" ..
  then have "reach h p = set xs" by (rule reach_chain)
  then show ?thesis by simp
next
  case False
  then have "reach h p = {}" by (auto simp: reach_def)
  then show ?thesis by simp
qed

lemma finite_shard_entries: "finite (shard_entries h sh)"
  by (simp add: shard_entries_def finite_reach)

lemma grow_buckets_ok:
  assumes "newtab_ok h nc t S" "0 < nc" "i + k = length old"
    "\<forall>j. i \<le> j \<and> j < length old \<longrightarrow>
       (\<exists>xs. chain h (old ! j) xs \<and> set xs \<inter> S = {} \<and>
          (\<forall>a\<in>set xs. \<exists>e. h a = Some e \<and> TABLE_IDX (hash e) oc = j))"
  shows "\<exists>h' t'. grow_buckets k i old nc h t = Some (Inr (h', t')) \<and>
           newtab_ok h' nc t' (S \<union> (\<Union>j\<in>{i..<length old}. reach h (old ! j))) \<and>
           erase h' = erase h \<and>
           (\<forall>a. a \<notin> (\<Union>j\<in>{i..<length old}. reach h (old ! j)) \<longrightarrow> h' a = h a)"
  using assms
proof (induction k arbitrary: i h t S)
  case 0
  then show ?case by simp
next
  case (Suc k)
  have i: "i < length old" using Suc.prems(3) by simp
  from Suc.prems(4) i obtain xs where xs: "chain h (old ! i) xs" "set xs \<inter> S = {}"
    "\<forall>a\<in>set xs. \<exists>e. h a = Some e \<and> TABLE_IDX (hash e) oc = i"
    by blast
  from grow_chain_ok [OF xs(1) Suc.prems(1) xs(2) Suc.prems(2)]
  obtain h1 t1 where r1: "grow_chain nc (old ! i) h t = Some (Inr (h1, t1))"
    "newtab_ok h1 nc t1 (S \<union> set xs)" "erase h1 = erase h"
    "\<forall>a. a \<notin> set xs \<longrightarrow> h1 a = h a"
    by blast
  have rest: "\<exists>ys. chain h1 (old ! j) ys \<and> set ys \<inter> (S \<union> set xs) = {} \<and>
          (\<forall>a\<in>set ys. \<exists>e. h1 a = Some e \<and> TABLE_IDX (hash e) oc = j) \<and>
          reach h (old ! j) = set ys \<and> reach h1 (old ! j) = set ys"
    if j: "Suc i \<le> j" "j < length old" for j
  proof -
    from Suc.prems(4) j obtain ys where ys: "chain h (old ! j) ys" "set ys \<inter> S = {}"
      "\<forall>a\<in>set ys. \<exists>e. h a = Some e \<and> TABLE_IDX (hash e) oc = j"
      by (metis Suc_leD)
    have disj: "set ys \<inter> set xs = {}"
    proof (rule ccontr)
      assume "set ys \<inter> set xs \<noteq> {}"
      then obtain a where "a \<in> set ys" "a \<in> set xs" by auto
      with ys(3) xs(3) have "j = i" by fastforce
      with j show False by simp
    qed
    then have same: "\<forall>a\<in>set ys. h1 a = h a" using r1(4) by auto
    then have c1: "chain h1 (old ! j) ys"
      using ys(1) by (subst chain_cong [where h = h]) auto
    have "\<forall>a\<in>set ys. \<exists>e. h1 a = Some e \<and> TABLE_IDX (hash e) oc = j"
      using ys(3) same by auto
    with c1 ys disj show ?thesis
      by (intro exI [where x = ys]) (auto simp: reach_chain)
  qed
  have pre: "\<forall>j. Suc i \<le> j \<and> j < length old \<longrightarrow>
       (\<exists>ys. chain h1 (old ! j) ys \<and> set ys \<inter> (S \<union> set xs) = {} \<and>
          (\<forall>a\<in>set ys. \<exists>e. h1 a = Some e \<and> TABLE_IDX (hash e) oc = j))"
    using rest by blast
  have sum: "Suc i + k = length old" using Suc.prems(3) by simp
  from Suc.IH [OF r1(2) Suc.prems(2) sum pre]
  obtain h' t' where r: "grow_buckets k (Suc i) old nc h1 t1 = Some (Inr (h', t'))"
    "newtab_ok h' nc t' (S \<union> set xs \<union> (\<Union>j\<in>{Suc i..<length old}. reach h1 (old ! j)))"
    "erase h' = erase h1"
    "\<forall>a. a \<notin> (\<Union>j\<in>{Suc i..<length old}. reach h1 (old ! j)) \<longrightarrow> h' a = h1 a"
    by blast
  have "reach h1 (old ! j) = reach h (old ! j)" if "j \<in> {Suc i..<length old}" for j
    using rest [of j] that by auto
  then have same_reach: "(\<Union>j\<in>{Suc i..<length old}. reach h1 (old ! j)) =
      (\<Union>j\<in>{Suc i..<length old}. reach h (old ! j))"
    by simp
  have split: "{i..<length old} = insert i {Suc i..<length old}"
    using i by auto
  have U: "(\<Union>j\<in>{i..<length old}. reach h (old ! j)) =
      set xs \<union> (\<Union>j\<in>{Suc i..<length old}. reach h (old ! j))"
    by (simp add: split reach_chain [OF xs(1)])
  have run: "grow_buckets (Suc k) i old nc h t = Some (Inr (h', t'))"
    using i r1(1) r(1) by simp
  have tab: "newtab_ok h' nc t' (S \<union> (\<Union>j\<in>{i..<length old}. reach h (old ! j)))"
    using r(2) by (simp add: same_reach U Un_assoc)
  have er: "erase h' = erase h" using r(3) r1(3) by simp
  have frame: "\<forall>a. a \<notin> (\<Union>j\<in>{i..<length old}. reach h (old ! j)) \<longrightarrow> h' a = h a"
  proof (intro allI impI)
    fix a assume "a \<notin> (\<Union>j\<in>{i..<length old}. reach h (old ! j))"
    then have "a \<notin> set xs" "a \<notin> (\<Union>j\<in>{Suc i..<length old}. reach h1 (old ! j))"
      unfolding U same_reach by auto
    then show "h' a = h a" using r(4) r1(4) by simp
  qed
  from run tab er frame show ?case by blast
qed

lemma shard_entries_reach:
  "length (strs sh) = n \<Longrightarrow> shard_entries h sh = (\<Union>j\<in>{0..<n}. reach h (strs sh ! j))"
  by (auto simp: shard_entries_def)

lemma grow_shard_ok:
  assumes ok: "shard_ok H seed h si sh"
  shows "\<exists>h' sh'. grow_shard h sh = Some (Inr (h', sh')) \<and>
           shard_ok H seed h' si sh' \<and> capacity sh' = 2 * capacity sh \<and>
           count sh' = count sh \<and> shard_entries h' sh' = shard_entries h sh \<and>
           erase h' = erase h \<and> (\<forall>a. a \<notin> shard_entries h sh \<longrightarrow> h' a = h a)"
proof -
  let ?oc = "capacity sh"
  let ?nc = "capacity sh * 2"
  let ?E = "shard_entries h sh"
  from ok have oc: "0 < ?oc" and len: "length (strs sh) = ?oc"
    and buckets: "\<forall>i<?oc. \<exists>xs. chain h (strs sh ! i) xs \<and>
        (\<forall>a\<in>set xs. \<exists>e. h a = Some e \<and> entry_ok H seed si ?oc i e)"
    and cnt: "count sh = card ?E" and uniq: "unique_live h ?E"
    by (auto simp: shard_ok_def)
  have nc: "0 < ?nc" using oc by simp
  have pre: "\<forall>j. 0 \<le> j \<and> j < length (strs sh) \<longrightarrow>
       (\<exists>xs. chain h (strs sh ! j) xs \<and> set xs \<inter> {} = {} \<and>
          (\<forall>a\<in>set xs. \<exists>e. h a = Some e \<and> TABLE_IDX (hash e) ?oc = j))"
    using buckets len by (fastforce simp: entry_ok_def)
  have sum: "0 + ?oc = length (strs sh)" using len by simp
  from grow_buckets_ok [OF newtab_ok_empty nc sum pre]
  obtain h' t' where r: "grow_buckets ?oc 0 (strs sh) ?nc h (replicate ?nc None) = Some (Inr (h', t'))"
    "newtab_ok h' ?nc t' ({} \<union> (\<Union>j\<in>{0..<length (strs sh)}. reach h (strs sh ! j)))"
    "erase h' = erase h"
    "\<forall>a. a \<notin> (\<Union>j\<in>{0..<length (strs sh)}. reach h (strs sh ! j)) \<longrightarrow> h' a = h a"
    by blast
  have E: "(\<Union>j\<in>{0..<length (strs sh)}. reach h (strs sh ! j)) = ?E"
    by (simp add: shard_entries_reach [OF refl])
  let ?sh = "sh\<lparr>strs := t', capacity := ?nc\<rparr>"
  have tab: "newtab_ok h' ?nc t' ?E" using r(2) by (simp add: E)
  have run: "grow_shard h sh = Some (Inr (h', ?sh))"
    using r(1) by (simp add: grow_shard_def)
  have lent: "length t' = ?nc" using tab by (simp add: newtab_ok_def)
  have old_entry: "\<exists>e i. h a = Some e \<and> entry_ok H seed si ?oc i e" if "a \<in> ?E" for a
  proof -
    from that obtain i where i: "i < ?oc" and a: "a \<in> reach h (strs sh ! i)"
      by (auto simp: shard_entries_def len)
    from buckets i obtain xs where xs: "chain h (strs sh ! i) xs"
      "\<forall>a\<in>set xs. \<exists>e. h a = Some e \<and> entry_ok H seed si ?oc i e" by blast
    from a xs(1) have "a \<in> set xs" by (simp add: reach_chain)
    with xs(2) show ?thesis by blast
  qed
  have E': "shard_entries h' ?sh = ?E"
  proof
    show "shard_entries h' ?sh \<subseteq> ?E"
    proof
      fix a assume "a \<in> shard_entries h' ?sh"
      then obtain j where j: "j < ?nc" and a: "a \<in> reach h' (t' ! j)"
        by (auto simp: shard_entries_def lent)
      from tab j obtain ys where ys: "chain h' (t' ! j) ys" "set ys \<subseteq> ?E"
        by (auto simp: newtab_ok_def)
      from a ys(1) have "a \<in> set ys" by (simp add: reach_chain)
      with ys(2) show "a \<in> ?E" by auto
    qed
    show "?E \<subseteq> shard_entries h' ?sh"
      using tab by (auto simp: newtab_ok_def shard_entries_def)
  qed
  have bk: "\<exists>ys. chain h' (t' ! j) ys \<and>
        (\<forall>a\<in>set ys. \<exists>e. h' a = Some e \<and> entry_ok H seed si ?nc j e)" if j: "j < ?nc" for j
  proof -
    from tab j obtain ys where ys: "chain h' (t' ! j) ys" "set ys \<subseteq> ?E"
      "\<forall>a\<in>set ys. \<exists>e. h' a = Some e \<and> TABLE_IDX (hash e) ?nc = j"
      by (auto simp: newtab_ok_def)
    have "\<exists>e. h' a = Some e \<and> entry_ok H seed si ?nc j e" if a: "a \<in> set ys" for a
    proof -
      from a ys(2) have "a \<in> ?E" by auto
      from old_entry [OF this] obtain e i where e: "h a = Some e" "entry_ok H seed si ?oc i e"
        by blast
      from eraseD [OF r(3) e(1)] obtain e' where e': "h' a = Some e'" "hash e' = hash e"
        "length_f e' = length_f e" "payload e' = payload e" by blast
      from ys(3) a e'(1) have idx: "TABLE_IDX (hash e') ?nc = j" by auto
      have sl: "InternedSlice e' = InternedSlice e"
        using e'(3,4) by (simp add: InternedSlice_def)
      from e(2) have "hash e = H (InternedSlice e) seed" "length_f e = length (payload e)"
        "SHARD_IDX (hash e) = si" unfolding entry_ok_def by blast+
      then have "entry_ok H seed si ?nc j e'"
        unfolding entry_ok_def sl e'(2,3,4) using idx e'(2) by simp
      with e'(1) show ?thesis by simp
    qed
    with ys(1) show ?thesis by blast
  qed
  have lc: "live h' a = live h a \<and> content h' a = content h a" if "a \<in> ?E" for a
  proof -
    from old_entry [OF that] obtain e where e: "h a = Some e" by blast
    from eraseD [OF r(3) e] obtain e' where "h' a = Some e'" "refcnt e' = refcnt e"
        "length_f e' = length_f e" "payload e' = payload e" by blast
    with e show ?thesis by (simp add: live_def content_def InternedSlice_def)
  qed
  have uniq': "unique_live h' ?E"
    using uniq lc unfolding unique_live_def by metis
  have "shard_ok H seed h' si ?sh"
    unfolding shard_ok_def using nc lent bk cnt uniq' by (simp add: E')
  with run E' r(3) r(4) show ?thesis
    by (intro exI [where x = h'] exI [where x = ?sh]) (simp add: E)
qed

lemma shard_bucket:
  assumes "shard_ok H seed h si sh" "i < capacity sh"
  shows "\<exists>xs. chain h (strs sh ! i) xs \<and> reach h (strs sh ! i) = set xs \<and>
    set xs \<subseteq> shard_entries h sh \<and>
    (\<forall>a\<in>set xs. \<exists>e. h a = Some e \<and> entry_ok H seed si (capacity sh) i e)"
proof -
  from assms obtain xs where xs: "chain h (strs sh ! i) xs"
    "\<forall>a\<in>set xs. \<exists>e. h a = Some e \<and> entry_ok H seed si (capacity sh) i e"
    unfolding shard_ok_def by blast
  have r: "reach h (strs sh ! i) = set xs" using xs(1) by (rule reach_chain)
  have "length (strs sh) = capacity sh" using assms(1) by (simp add: shard_ok_def)
  with assms(2) r have "set xs \<subseteq> shard_entries h sh"
    by (auto simp: shard_entries_def)
  with xs r show ?thesis by blast
qed

lemma shard_entry:
  assumes "shard_ok H seed h si sh" "a \<in> shard_entries h sh"
  shows "\<exists>e i. i < capacity sh \<and> h a = Some e \<and> entry_ok H seed si (capacity sh) i e \<and>
    a \<in> reach h (strs sh ! i)"
proof -
  have len: "length (strs sh) = capacity sh" using assms(1) by (simp add: shard_ok_def)
  with assms(2) obtain i where i: "i < capacity sh" "a \<in> reach h (strs sh ! i)"
    by (auto simp: shard_entries_def)
  from shard_bucket [OF assms(1) i(1)] obtain xs where xs:
    "reach h (strs sh ! i) = set xs"
    "\<forall>a\<in>set xs. \<exists>e. h a = Some e \<and> entry_ok H seed si (capacity sh) i e"
    by blast
  from i(2) xs(1) have "a \<in> set xs" by simp
  with xs(2) obtain e where "h a = Some e" "entry_ok H seed si (capacity sh) i e" by blast
  with i show ?thesis by blast
qed

lemma kept_live_content: "kept h h' a \<Longrightarrow> live h' a = live h a \<and> content h' a = content h a"
  by (auto simp: kept_def live_def content_def InternedSlice_def)

lemma shard_ok_heap_cong:
  assumes ok: "shard_ok H seed h si sh"
    and same: "\<And>a. a \<in> shard_entries h sh \<Longrightarrow> kept h h' a"
  shows "shard_ok H seed h' si sh \<and> shard_entries h' sh = shard_entries h sh"
proof -
  let ?E = "shard_entries h sh"
  have len: "length (strs sh) = capacity sh" and cap: "0 < capacity sh"
    and cnt: "count sh = card ?E" and uniq: "unique_live h ?E"
    using ok by (simp_all add: shard_ok_def)
  have bk: "\<exists>xs. chain h' (strs sh ! i) xs \<and> reach h' (strs sh ! i) = reach h (strs sh ! i) \<and>
      (\<forall>a\<in>set xs. \<exists>e. h' a = Some e \<and> entry_ok H seed si (capacity sh) i e)"
    if i: "i < capacity sh" for i
  proof -
    from shard_bucket [OF ok i] obtain xs where xs: "chain h (strs sh ! i) xs"
      "reach h (strs sh ! i) = set xs" "set xs \<subseteq> ?E"
      "\<forall>a\<in>set xs. \<exists>e. h a = Some e \<and> entry_ok H seed si (capacity sh) i e"
      by blast
    have k: "kept h h' a" if "a \<in> set xs" for a using that xs(3) same by blast
    have "map_option bucket_next (h' a) = map_option bucket_next (h a)" if "a \<in> set xs" for a
      using k [OF that] by (auto simp: kept_def)
    then have "\<forall>a\<in>set xs. map_option bucket_next (h' a) = map_option bucket_next (h a)"
      by blast
    from chain_cong [OF this, of "strs sh ! i"] xs(1)
    have c: "chain h' (strs sh ! i) xs" by simp
    have "\<exists>e. h' a = Some e \<and> entry_ok H seed si (capacity sh) i e" if a: "a \<in> set xs" for a
    proof -
      from xs(4) a obtain e where e: "h a = Some e" "entry_ok H seed si (capacity sh) i e"
        by blast
      from k [OF a] e(1) obtain e' where e': "h' a = Some e'" "hash e' = hash e"
        "length_f e' = length_f e" "payload e' = payload e"
        by (auto simp: kept_def)
      have "entry_ok H seed si (capacity sh) i e'"
        using e(2) unfolding entry_ok_def InternedSlice_def e'(2,3,4) .
      with e'(1) show ?thesis by simp
    qed
    then have "\<forall>a\<in>set xs. \<exists>e. h' a = Some e \<and> entry_ok H seed si (capacity sh) i e"
      by blast
    moreover have "reach h' (strs sh ! i) = reach h (strs sh ! i)"
      using reach_chain [OF c] xs(2) by simp
    ultimately show ?thesis using c by blast
  qed
  have "reach h' (strs sh ! i) = reach h (strs sh ! i)" if "i < capacity sh" for i
    using bk [OF that] by blast
  then have E: "shard_entries h' sh = ?E"
    by (simp add: shard_entries_def len)
  have u: "unique_live h' ?E"
    unfolding unique_live_def
  proof (intro ballI impI)
    fix a b assume a: "a \<in> ?E" and b: "b \<in> ?E"
      and l: "live h' a \<and> live h' b \<and> content h' a = content h' b"
    from kept_live_content [OF same [OF a]] kept_live_content [OF same [OF b]] l
    have "live h a \<and> live h b \<and> content h a = content h b" by simp
    with uniq a b show "a = b" unfolding unique_live_def by blast
  qed
  have bk': "\<forall>i<capacity sh. \<exists>xs. chain h' (strs sh ! i) xs \<and>
      (\<forall>a\<in>set xs. \<exists>e. h' a = Some e \<and> entry_ok H seed si (capacity sh) i e)"
    using bk by blast
  have "shard_ok H seed h' si sh"
    unfolding shard_ok_def E using cap len cnt u bk' by blast
  with E show ?thesis by simp
qed

lemma kept_refl: "h a = Some e \<Longrightarrow> h' a = h a \<Longrightarrow> kept h h' a"
  by (simp add: kept_def)

lemma shard_ok_insert:
  assumes ok: "shard_ok H seed h si sh" and new: "h new = None" and idx: "idx < capacity sh"
    and e: "bucket_next e = strs sh ! idx" "entry_ok H seed si (capacity sh) idx e"
    and fresh: "\<And>a. a \<in> shard_entries h sh \<Longrightarrow> live h a \<Longrightarrow> content h a \<noteq> InternedSlice e"
  shows "shard_ok H seed (h(new \<mapsto> e)) si
           (sh\<lparr>strs := (strs sh)[idx := Some new], count := count sh + 1\<rparr>) \<and>
         shard_entries (h(new \<mapsto> e))
           (sh\<lparr>strs := (strs sh)[idx := Some new], count := count sh + 1\<rparr>) =
           insert new (shard_entries h sh)"
proof -
  let ?E = "shard_entries h sh"
  let ?h = "h(new \<mapsto> e)"
  let ?sh = "sh\<lparr>strs := (strs sh)[idx := Some new], count := count sh + 1\<rparr>"
  have len: "length (strs sh) = capacity sh" and cap: "0 < capacity sh"
    and cnt: "count sh = card ?E" and uniq: "unique_live h ?E"
    using ok by (simp_all add: shard_ok_def)
  have newE: "new \<notin> ?E"
  proof
    assume "new \<in> ?E"
    from shard_entry [OF ok this] obtain e' where "h new = Some e'" by blast
    with new show False by simp
  qed
  have bk: "\<exists>xs. chain ?h (strs ?sh ! i) xs \<and>
      reach ?h (strs ?sh ! i) = (if i = idx then insert new (reach h (strs sh ! i))
                                else reach h (strs sh ! i)) \<and>
      (\<forall>a\<in>set xs. \<exists>e. ?h a = Some e \<and> entry_ok H seed si (capacity sh) i e)"
    if i: "i < capacity sh" for i
  proof -
    from shard_bucket [OF ok i] obtain xs where xs: "chain h (strs sh ! i) xs"
      "reach h (strs sh ! i) = set xs" "set xs \<subseteq> ?E"
      "\<forall>a\<in>set xs. \<exists>e. h a = Some e \<and> entry_ok H seed si (capacity sh) i e"
      by blast
    from xs(3) newE have notin: "new \<notin> set xs" by auto
    then have c: "chain ?h (strs sh ! i) xs"
      using xs(1) by (subst chain_cong [where h = h]) auto
    have oks: "\<forall>a\<in>set xs. \<exists>e. ?h a = Some e \<and> entry_ok H seed si (capacity sh) i e"
      using xs(4) notin by auto
    show ?thesis
    proof (cases "i = idx")
      case True
      have c2: "chain ?h (strs ?sh ! i) (new # xs)"
        using True i len c e(1) by simp
      have r2: "reach ?h (strs ?sh ! i) = insert new (reach h (strs sh ! i))"
        using reach_chain [OF c2] xs(2) by simp
      have "\<forall>a\<in>set (new # xs). \<exists>e. ?h a = Some e \<and> entry_ok H seed si (capacity sh) i e"
        using oks e(2) True by auto
      with c2 r2 True show ?thesis by (intro exI [where x = "new # xs"]) simp
    next
      case False
      have c2: "chain ?h (strs ?sh ! i) xs"
        using False i len c by simp
      have r2: "reach ?h (strs ?sh ! i) = reach h (strs sh ! i)"
        using reach_chain [OF c2] xs(2) by simp
      from c2 r2 oks False show ?thesis by (intro exI [where x = xs]) simp
    qed
  qed
  have rr: "reach ?h (strs ?sh ! i) = (if i = idx then insert new (reach h (strs sh ! i))
                                else reach h (strs sh ! i))" if "i < capacity sh" for i
    using bk [OF that] by blast
  have E: "shard_entries ?h ?sh = insert new ?E"
  proof -
    have "shard_entries ?h ?sh = (\<Union>i<capacity sh. reach ?h (strs ?sh ! i))"
      by (simp add: shard_entries_def len)
    also have "\<dots> = (\<Union>i<capacity sh. if i = idx then insert new (reach h (strs sh ! i))
                                else reach h (strs sh ! i))"
      using rr by simp
    also have "\<dots> = insert new (\<Union>i<capacity sh. reach h (strs sh ! i))"
      using idx by (auto split: if_splits)
    finally show ?thesis by (simp add: shard_entries_def len)
  qed
  have k: "kept h ?h a" if "a \<in> ?E" for a
  proof -
    from shard_entry [OF ok that] obtain e' where "h a = Some e'" by blast
    moreover from that newE have "a \<noteq> new" by auto
    ultimately show ?thesis by (simp add: kept_def)
  qed
  have cn: "content ?h new = InternedSlice e" by (simp add: content_def)
  have capeq: "capacity ?sh = capacity sh" by simp
  have "unique_live ?h (insert new ?E)"
    unfolding unique_live_def
  proof (intro ballI impI)
    fix a b assume a: "a \<in> insert new ?E" and b: "b \<in> insert new ?E"
      and l: "live ?h a \<and> live ?h b \<and> content ?h a = content ?h b"
    show "a = b"
    proof (cases "a = new")
      case an: True
      show ?thesis
      proof (cases "b = new")
        case True
        with an show ?thesis by simp
      next
        case False
        with b have bE: "b \<in> ?E" by simp
        from kept_live_content [OF k [OF bE]] l an cn fresh [OF bE] show ?thesis by auto
      qed
    next
      case False
      with a have aE: "a \<in> ?E" by simp
      show ?thesis
      proof (cases "b = new")
        case True
        from kept_live_content [OF k [OF aE]] l True cn fresh [OF aE] show ?thesis by auto
      next
        case False
        with b have bE: "b \<in> ?E" by simp
        from kept_live_content [OF k [OF aE]] kept_live_content [OF k [OF bE]] l
        have "live h a \<and> live h b \<and> content h a = content h b" by simp
        with uniq aE bE show ?thesis unfolding unique_live_def by blast
      qed
    qed
  qed
  moreover have "count ?sh = card (insert new ?E)"
    using cnt newE finite_shard_entries [of h sh] by simp
  moreover have "\<forall>i<capacity ?sh. \<exists>xs. chain ?h (strs ?sh ! i) xs \<and>
      (\<forall>a\<in>set xs. \<exists>e. ?h a = Some e \<and> entry_ok H seed si (capacity ?sh) i e)"
    unfolding capeq using bk by blast
  moreover have "0 < capacity ?sh" "length (strs ?sh) = capacity ?sh"
    using cap len by simp_all
  ultimately have "shard_ok H seed ?h si ?sh"
    unfolding shard_ok_def E by blast
  with E show ?thesis by simp
qed

lemma entry_okD:
  assumes "entry_ok H seed si cap i e"
  shows "hash e = H (InternedSlice e) seed" and "length_f e = length (payload e)"
    and "SHARD_IDX (hash e) = si" and "TABLE_IDX (hash e) cap = i"
  using assms unfolding entry_ok_def by blast+

lemma find_SomeD: "find P xs = Some x \<Longrightarrow> P x \<and> x \<in> set xs"
  by (induction xs) (auto split: if_splits)

lemma kept_ref_entry:
  assumes "h a = Some e" "live h b"
  shows "kept h (ref_entry h b) a"
proof (cases "a = b")
  case True
  with assms show ?thesis by (auto simp: kept_def ref_entry_def live_def)
next
  case False
  with assms show ?thesis by (auto simp: kept_def ref_entry_def split: option.splits)
qed

lemma table_inv_shard:
  "table_inv H st \<Longrightarrow> si < SHARD_COUNT \<Longrightarrow>
   shard_ok H (g_hash_seed st) (heap st) si (g_shards st ! si)"
  by (simp add: table_inv_def)

lemma table_entry:
  assumes inv: "table_inv H st" and a: "a \<in> table_entries st"
  shows "\<exists>si e i. si < SHARD_COUNT \<and> a \<in> shard_entries (heap st) (g_shards st ! si) \<and>
     i < capacity (g_shards st ! si) \<and> heap st a = Some e \<and>
     entry_ok H (g_hash_seed st) si (capacity (g_shards st ! si)) i e \<and>
     a \<in> reach (heap st) (strs (g_shards st ! si) ! i)"
proof -
  from inv have len: "length (g_shards st) = SHARD_COUNT" by (simp add: table_inv_def)
  with a obtain si where si: "si < SHARD_COUNT"
    "a \<in> shard_entries (heap st) (g_shards st ! si)"
    by (auto simp: table_entries_def)
  from shard_entry [OF table_inv_shard [OF inv si(1)] si(2)] si show ?thesis by blast
qed

lemma table_inv_ref:
  assumes inv: "table_inv H st" and lb: "live (heap st) b"
  shows "table_inv H (st\<lparr>heap := ref_entry (heap st) b\<rparr>) \<and>
         table_entries (st\<lparr>heap := ref_entry (heap st) b\<rparr>) = table_entries st"
proof -
  let ?h = "ref_entry (heap st) b"
  have sh: "shard_ok H (g_hash_seed st) ?h si (g_shards st ! si) \<and>
      shard_entries ?h (g_shards st ! si) = shard_entries (heap st) (g_shards st ! si)"
    if si: "si < SHARD_COUNT" for si
  proof (rule shard_ok_heap_cong [OF table_inv_shard [OF inv si]])
    fix a assume "a \<in> shard_entries (heap st) (g_shards st ! si)"
    from shard_entry [OF table_inv_shard [OF inv si] this]
    obtain e where "heap st a = Some e" by blast
    then show "kept (heap st) ?h a" using lb by (rule kept_ref_entry)
  qed
  from inv have len: "length (g_shards st) = SHARD_COUNT" by (simp add: table_inv_def)
  have "table_inv H (st\<lparr>heap := ?h\<rparr>)"
    using sh len by (simp add: table_inv_def)
  moreover have "table_entries (st\<lparr>heap := ?h\<rparr>) = table_entries st"
    using sh len by (simp add: table_entries_def)
  ultimately show ?thesis ..
qed

lemma InternedSlice_new [simp]:
  "InternedSlice (new_InternedSliceRefcount (length args) hsh nxt
      (if 0 < length args then take (length args) args else [])) = args"
  by (simp add: InternedSlice_def new_InternedSliceRefcount_def)

text \<open>Where a live entry with the bytes \<open>args\<close> must be: the bucket the scan reads.\<close>

lemma live_entry_in_bucket:
  assumes inv: "table_inv H st" and hsh: "hsh = H args (g_hash_seed st)"
    and b: "b \<in> table_entries st" "content (heap st) b = args"
  shows "b \<in> reach (heap st)
           (strs (g_shards st ! SHARD_IDX hsh) ! TABLE_IDX hsh (capacity (g_shards st ! SHARD_IDX hsh))) \<and>
         b \<in> shard_entries (heap st) (g_shards st ! SHARD_IDX hsh) \<and>
         (\<exists>e. heap st b = Some e \<and> hash e = hsh)"
proof -
  from table_entry [OF inv b(1)] obtain si e i where e: "si < SHARD_COUNT"
    "b \<in> shard_entries (heap st) (g_shards st ! si)" "heap st b = Some e"
    "entry_ok H (g_hash_seed st) si (capacity (g_shards st ! si)) i e"
    "b \<in> reach (heap st) (strs (g_shards st ! si) ! i)"
    by blast
  from b(2) e(3) have "InternedSlice e = args" by (simp add: content_def)
  with entry_okD(1) [OF e(4)] hsh have h: "hash e = hsh" by simp
  note si = entry_okD(3) [OF e(4)] and i = entry_okD(4) [OF e(4)]
  from h si have si': "si = SHARD_IDX hsh" by simp
  from h i si' have i': "i = TABLE_IDX hsh (capacity (g_shards st ! SHARD_IDX hsh))" by simp
  from e(2,3,5) h si' i' show ?thesis by simp
qed

lemma FindOrCreate_hit:
  assumes inv: "table_inv H st" and hsh: "hsh = H args (g_hash_seed st)"
    and b: "b \<in> table_entries st" "live (heap st) b" "content (heap st) b = args"
  shows "FindOrCreateInternedSlice new hsh args st =
           Some (Inr (b, st\<lparr>heap := ref_entry (heap st) b\<rparr>))"
proof -
  let ?si = "SHARD_IDX hsh"
  let ?sh = "g_shards st ! ?si"
  let ?idx = "TABLE_IDX hsh (capacity ?sh)"
  let ?h = "heap st"
  have si: "?si < SHARD_COUNT" by (rule SHARD_IDX_less)
  from inv have len: "length (g_shards st) = SHARD_COUNT" by (simp add: table_inv_def)
  have ok: "shard_ok H (g_hash_seed st) ?h ?si ?sh" using inv si by (rule table_inv_shard)
  then have cap: "0 < capacity ?sh" and lens: "length (strs ?sh) = capacity ?sh"
    and uniq: "unique_live ?h (shard_entries ?h ?sh)"
    by (simp_all add: shard_ok_def)
  have idx: "?idx < capacity ?sh" using cap by (rule TABLE_IDX_less)
  from shard_bucket [OF ok idx] obtain xs where xs: "chain ?h (strs ?sh ! ?idx) xs"
    "reach ?h (strs ?sh ! ?idx) = set xs" "set xs \<subseteq> shard_entries ?h ?sh"
    by blast
  from live_entry_in_bucket [OF inv hsh b(1,3)] obtain e where
    bx: "b \<in> set xs" and bE: "b \<in> shard_entries ?h ?sh" and e: "?h b = Some e" "hash e = hsh"
    unfolding xs(2) by blast
  have mb: "matches hsh args ?h b"
    using e b(2,3) by (simp add: matches_def live_def content_def)
  with bx have "find (matches hsh args ?h) xs \<noteq> None" by (auto simp: find_None_iff)
  then obtain a where a: "find (matches hsh args ?h) xs = Some a" by auto
  from find_SomeD [OF a] have ma: "matches hsh args ?h a" and ax: "a \<in> set xs" by simp_all
  from ma have "live ?h a \<and> content ?h a = args"
    by (auto simp: matches_def live_def content_def split: option.splits)
  with uniq ax xs(3) bE b(2,3) have "a = b" unfolding unique_live_def by blast
  with a have f: "find (matches hsh args ?h) xs = Some b" by simp
  have "MatchInternedSliceLocked hsh ?idx args st = Some (Inr (Some b, st\<lparr>heap := ref_entry ?h b\<rparr>))"
    using si len idx lens match_scan_chain [OF xs(1), of hsh args] f
    by (simp add: MatchInternedSliceLocked_def)
  then show ?thesis
    using si len cap by (simp add: FindOrCreateInternedSlice_def)
qed

lemma new_entry_eq:
  "new_entry hsh nxt args =
     \<lparr>length_f = length args, refcnt = 1, hash = hsh, bucket_next = nxt, payload = args\<rparr>"
  by (simp add: new_entry_def new_InternedSliceRefcount_def)

lemma InternNewStringLocked_shard:
  assumes ok: "shard_ok H seed h si sh" and new: "h new = None" and idx: "idx < capacity sh"
    and hsh: "hsh = H args seed" "SHARD_IDX hsh = si" "TABLE_IDX hsh (capacity sh) = idx"
    and fresh: "\<forall>a\<in>shard_entries h sh. live h a \<longrightarrow> content h a \<noteq> args"
  shows "\<exists>h' sh'.
      (if capacity sh * 2 < count sh + 1
       then grow_shard (h(new \<mapsto> new_entry hsh (strs sh ! idx) args))
              (sh\<lparr>strs := (strs sh)[idx := Some new], count := count sh + 1\<rparr>) = Some (Inr (h', sh')) \<and>
            capacity sh' = 2 * capacity sh
       else h' = h(new \<mapsto> new_entry hsh (strs sh ! idx) args) \<and>
            sh' = sh\<lparr>strs := (strs sh)[idx := Some new], count := count sh + 1\<rparr>) \<and>
      shard_ok H seed h' si sh' \<and>
      shard_entries h' sh' = insert new (shard_entries h sh) \<and>
      erase h' = erase (h(new \<mapsto> new_entry hsh (strs sh ! idx) args)) \<and>
      (\<forall>a. a \<notin> insert new (shard_entries h sh) \<longrightarrow> h' a = h a) \<and>
      count sh' = count sh + 1"
proof -
  let ?e = "new_entry hsh (strs sh ! idx) args"
  let ?h1 = "h(new \<mapsto> ?e)"
  let ?sh1 = "sh\<lparr>strs := (strs sh)[idx := Some new], count := count sh + 1\<rparr>"
  have e1: "bucket_next ?e = strs sh ! idx" by (simp add: new_entry_eq)
  have sl: "InternedSlice ?e = args" by (simp add: new_entry_eq InternedSlice_def)
  have e2: "entry_ok H seed si (capacity sh) idx ?e"
    unfolding entry_ok_def sl using hsh by (simp add: new_entry_eq)
  have fr: "content h a \<noteq> InternedSlice ?e" if "a \<in> shard_entries h sh" "live h a" for a
    using fresh that unfolding sl by blast
  from shard_ok_insert [OF ok new idx e1 e2 fr]
  have ok1: "shard_ok H seed ?h1 si ?sh1"
    and E1: "shard_entries ?h1 ?sh1 = insert new (shard_entries h sh)"
    by simp_all
  show ?thesis
  proof (cases "capacity sh * 2 < count sh + 1")
    case True
    from grow_shard_ok [OF ok1] obtain h' sh' where g: "grow_shard ?h1 ?sh1 = Some (Inr (h', sh'))"
      "shard_ok H seed h' si sh'" "capacity sh' = 2 * capacity ?sh1" "count sh' = count ?sh1"
      "shard_entries h' sh' = shard_entries ?h1 ?sh1" "erase h' = erase ?h1"
      "\<forall>a. a \<notin> shard_entries ?h1 ?sh1 \<longrightarrow> h' a = ?h1 a"
      by blast
    have "\<forall>a. a \<notin> insert new (shard_entries h sh) \<longrightarrow> h' a = h a"
      using g(7) unfolding E1 by auto
    with g True E1 show ?thesis
      by (intro exI [where x = h'] exI [where x = sh']) simp
  next
    case False
    with ok1 E1 show ?thesis
      by (intro exI [where x = ?h1] exI [where x = ?sh1]) simp
  qed
qed

lemma FindOrCreate_miss:
  assumes inv: "table_inv H st" and hsh: "hsh = H args (g_hash_seed st)"
    and new: "heap st new = None"
    and none: "\<forall>a\<in>table_entries st. live (heap st) a \<longrightarrow> content (heap st) a \<noteq> args"
  shows "\<exists>st'. FindOrCreateInternedSlice new hsh args st = Some (Inr (new, st')) \<and>
           table_inv H st' \<and> create_post new hsh args st st'"
proof -
  let ?si = "SHARD_IDX hsh"
  let ?sh = "g_shards st ! ?si"
  let ?idx = "TABLE_IDX hsh (capacity ?sh)"
  let ?h = "heap st"
  let ?seed = "g_hash_seed st"
  let ?e = "new_entry hsh (strs ?sh ! ?idx) args"
  let ?h1 = "?h(new \<mapsto> ?e)"
  let ?sh1 = "?sh\<lparr>strs := (strs ?sh)[?idx := Some new], count := count ?sh + 1\<rparr>"
  have si: "?si < SHARD_COUNT" by (rule SHARD_IDX_less)
  from inv have len: "length (g_shards st) = SHARD_COUNT" by (simp add: table_inv_def)
  have ok: "shard_ok H ?seed ?h ?si ?sh" using inv si by (rule table_inv_shard)
  then have cap: "0 < capacity ?sh" and lens: "length (strs ?sh) = capacity ?sh"
    by (simp_all add: shard_ok_def)
  have idx: "?idx < capacity ?sh" using cap by (rule TABLE_IDX_less)
  have sub: "shard_entries ?h ?sh \<subseteq> table_entries st"
    using si len by (auto simp: table_entries_def)
  from shard_bucket [OF ok idx] obtain xs where xs: "chain ?h (strs ?sh ! ?idx) xs"
    "set xs \<subseteq> shard_entries ?h ?sh"
    by blast
  have "\<not> matches hsh args ?h a" if "a \<in> set xs" for a
  proof
    assume "matches hsh args ?h a"
    then have "live ?h a \<and> content ?h a = args"
      by (auto simp: matches_def live_def content_def split: option.splits)
    moreover from that xs(2) sub have "a \<in> table_entries st" by blast
    ultimately show False using none by blast
  qed
  then have f: "find (matches hsh args ?h) xs = None" by (simp add: find_None_iff)
  have m: "MatchInternedSliceLocked hsh ?idx args st = Some (Inr (None, st))"
    using si len idx lens match_scan_chain [OF xs(1), of hsh args] f
    by (simp add: MatchInternedSliceLocked_def)
  have fresh: "\<forall>a\<in>shard_entries ?h ?sh. live ?h a \<longrightarrow> content ?h a \<noteq> args"
    using none sub by blast
  from InternNewStringLocked_shard [OF ok new idx hsh refl refl fresh]
  obtain h' sh' where r:
      "if capacity ?sh * 2 < count ?sh + 1
       then grow_shard ?h1 ?sh1 = Some (Inr (h', sh')) \<and> capacity sh' = 2 * capacity ?sh
       else h' = ?h1 \<and> sh' = ?sh1"
      "shard_ok H ?seed h' ?si sh'"
      "shard_entries h' sh' = insert new (shard_entries ?h ?sh)"
      "erase h' = erase ?h1"
      "\<forall>a. a \<notin> insert new (shard_entries ?h ?sh) \<longrightarrow> h' a = ?h a"
      "count sh' = count ?sh + 1"
    by blast
  let ?st = "st\<lparr>heap := h', g_shards := (g_shards st)[?si := sh']\<rparr>"
  have n: "InternNewStringLocked new ?si ?idx hsh args st = Some (Inr (new, ?st))"
  proof (cases "capacity ?sh * 2 < count ?sh + 1")
    case True
    with r(1) have "grow_shard ?h1 ?sh1 = Some (Inr (h', sh'))" by simp
    with True idx lens show ?thesis
      by (simp add: InternNewStringLocked_def Let_def new_entry_def)
  next
    case False
    with r(1) have "h' = ?h1" "sh' = ?sh1" by simp_all
    with False idx lens show ?thesis
      by (simp add: InternNewStringLocked_def Let_def new_entry_def)
  qed
  have run: "FindOrCreateInternedSlice new hsh args st = Some (Inr (new, ?st))"
    using si len cap m n by (simp add: FindOrCreateInternedSlice_def)
  have other: "shard_ok H ?seed h' sj (g_shards st ! sj) \<and>
      shard_entries h' (g_shards st ! sj) = shard_entries ?h (g_shards st ! sj)"
    if sj: "sj < SHARD_COUNT" "sj \<noteq> ?si" for sj
  proof (rule shard_ok_heap_cong [OF table_inv_shard [OF inv sj(1)]])
    fix a assume a: "a \<in> shard_entries ?h (g_shards st ! sj)"
    from shard_entry [OF table_inv_shard [OF inv sj(1)] a]
    obtain e i where e: "?h a = Some e" "entry_ok H ?seed sj (capacity (g_shards st ! sj)) i e"
      by blast
    have "a \<noteq> new" using e(1) new by auto
    moreover have "a \<notin> shard_entries ?h ?sh"
    proof
      assume "a \<in> shard_entries ?h ?sh"
      from shard_entry [OF ok this] e(1)
      obtain i' where "entry_ok H ?seed ?si (capacity ?sh) i' e" by auto
      from entry_okD(3) [OF this] entry_okD(3) [OF e(2)] sj(2) show False by simp
    qed
    ultimately have "h' a = ?h a" using r(5) by simp
    with e(1) show "kept ?h h' a" by (rule kept_refl)
  qed
  have inv': "table_inv H ?st"
    unfolding table_inv_def
  proof (intro conjI allI impI)
    show "length (g_shards ?st) = SHARD_COUNT" using len by simp
  next
    fix sj assume sj: "sj < SHARD_COUNT"
    show "shard_ok H (g_hash_seed ?st) (heap ?st) sj (g_shards ?st ! sj)"
    proof (cases "sj = ?si")
      case True
      with r(2) si len show ?thesis by simp
    next
      case False
      with other [OF sj] show ?thesis by simp
    qed
  qed
  have ents: "shard_entries (heap ?st) (g_shards ?st ! sj) =
          (if sj = ?si then insert new (shard_entries ?h (g_shards st ! sj))
           else shard_entries ?h (g_shards st ! sj))" if "sj < length (g_shards st)" for sj
  proof (cases "sj = ?si")
    case True
    with r(3) si len show ?thesis by simp
  next
    case False
    with other [of sj] that len show ?thesis by simp
  qed
  have capeq: "capacity sh' = (if capacity ?sh * 2 < count ?sh + 1 then 2 * capacity ?sh
        else capacity ?sh)"
    using r(1) by (auto split: if_splits)
  have "create_post new hsh args st ?st"
    unfolding create_post_def using si len capeq r(4,6) ents by simp
  with run inv' show ?thesis by blast
qed

lemma reach_None [simp]: "reach h None = {}"
  using reach_chain [of h None "[]"] by simp

lemma init_shards:
  "si < SHARD_COUNT \<Longrightarrow>
   g_shards (grpc_slice_intern_init tv_nsec st) ! si =
     \<lparr>strs = replicate INITIAL_SHARD_CAPACITY None, count = 0, capacity = INITIAL_SHARD_CAPACITY\<rparr>"
  by (simp add: grpc_slice_intern_init_def)

lemma shard_ok_empty:
  "0 < n \<Longrightarrow> shard_ok H seed h si \<lparr>strs = replicate n None, count = 0, capacity = n\<rparr>"
  unfolding shard_ok_def
  by (auto simp: shard_entries_def unique_live_def intro: exI [where x = "[]"])

lemma table_inv_init: "table_inv H (grpc_slice_intern_init tv_nsec st)"
  unfolding table_inv_def
proof (intro conjI allI impI)
  show "length (g_shards (grpc_slice_intern_init tv_nsec st)) = SHARD_COUNT"
    by (simp add: grpc_slice_intern_init_def)
next
  fix si assume "si < SHARD_COUNT"
  then show "shard_ok H (g_hash_seed (grpc_slice_intern_init tv_nsec st))
     (heap (grpc_slice_intern_init tv_nsec st)) si (g_shards (grpc_slice_intern_init tv_nsec st) ! si)"
    by (simp add: init_shards shard_ok_empty INITIAL_SHARD_CAPACITY_def)
qed

lemma table_entries_init [simp]: "table_entries (grpc_slice_intern_init tv_nsec st) = {}"
  by (auto simp: table_entries_def shard_entries_def grpc_slice_intern_init_def)

lemma unlink_scan_found:
  "chain h p (pre @ this # post) \<Longrightarrow>
   unlink_scan h this sl p = Some (Inr (if pre = [] then sl else NextOf (last pre)))"
proof (induction pre arbitrary: p sl)
  case Nil
  then show ?case by (subst unlink_scan.simps) simp
next
  case (Cons c pre)
  from Cons.prems have "distinct ((c # pre) @ this # post)" by (rule chain_distinct)
  then have ne: "c \<noteq> this" by auto
  from Cons.prems obtain e where p: "p = Some c" and e: "h c = Some e"
    and tl: "chain h (bucket_next e) (pre @ this # post)"
    by (auto split: option.splits)
  from Cons.IH [OF tl, of "NextOf c"] p e ne show ?case
    by (subst unlink_scan.simps) simp
qed

lemma unlink_scan_missing:
  "chain h p xs \<Longrightarrow> this \<notin> set xs \<Longrightarrow> unlink_scan h this sl p = Some (Inl NullDeref)"
proof (induction xs arbitrary: p sl)
  case Nil
  then show ?case by (subst unlink_scan.simps) simp
next
  case (Cons c xs)
  from Cons.prems obtain e where p: "p = Some c" and e: "h c = Some e"
    and tl: "chain h (bucket_next e) xs" and ne: "c \<noteq> this" "this \<notin> set xs"
    by (auto split: option.splits)
  from Cons.IH [OF tl ne(2), of "NextOf c"] p e ne(1) show ?case
    by (subst unlink_scan.simps) simp
qed

lemma chain_unlink:
  assumes "chain h p (pre @ c # this # post)" "h c = Some ec" "h this = Some t"
  shows "chain (h(c \<mapsto> ec\<lparr>bucket_next := bucket_next t\<rparr>)) p (pre @ c # post)"
proof -
  let ?h = "h(c \<mapsto> ec\<lparr>bucket_next := bucket_next t\<rparr>)"
  from assms(1) have d: "distinct (pre @ c # this # post)" by (rule chain_distinct)
  show ?thesis using assms(1) d
  proof (induction pre arbitrary: p)
    case Nil
    from Nil.prems(1) assms(2,3) have p: "p = Some c" and "bucket_next ec = Some this"
      and tl: "chain h (bucket_next t) post"
      by (auto split: option.splits)
    from Nil.prems(2) have "c \<notin> set post" by simp
    then have "chain ?h (bucket_next t) post"
      using tl by (subst chain_cong [where h = h]) auto
    moreover have "?h c = Some (ec\<lparr>bucket_next := bucket_next t\<rparr>)" by simp
    ultimately show ?case using p by (simp del: fun_upd_apply)
  next
    case (Cons d pre)
    from Cons.prems(2) have ne: "d \<noteq> c" by auto
    from Cons.prems(1) obtain e where p: "p = Some d" and e: "h d = Some e"
      and tl: "chain h (bucket_next e) (pre @ c # this # post)"
      by (auto split: option.splits)
    from Cons.prems(2) have "distinct (pre @ c # this # post)" by simp
    from Cons.IH [OF tl this] have "chain ?h (bucket_next e) (pre @ c # post)" .
    moreover have "?h d = Some e" using e ne by simp
    ultimately show ?case using p by (simp del: fun_upd_apply)
  qed
qed

lemma shard_ok_remove:
  assumes ok: "shard_ok H seed h si sh" and idx: "idx < capacity sh"
    and c: "chain h (strs sh ! idx) (pre @ this # post)"
    and er: "erase h' = erase h" and fr: "\<forall>a. a \<notin> set pre \<longrightarrow> h' a = h a"
    and c': "chain h' p' (pre @ post)"
  shows "shard_ok H seed h' si (sh\<lparr>strs := (strs sh)[idx := p'], count := count sh - 1\<rparr>) \<and>
         shard_entries h' (sh\<lparr>strs := (strs sh)[idx := p'], count := count sh - 1\<rparr>) =
           shard_entries h sh - {this}"
proof -
  let ?E = "shard_entries h sh"
  let ?sh = "sh\<lparr>strs := (strs sh)[idx := p'], count := count sh - 1\<rparr>"
  have len: "length (strs sh) = capacity sh" and cap: "0 < capacity sh"
    and cnt: "count sh = card ?E" and uniq: "unique_live h ?E"
    using ok by (simp_all add: shard_ok_def)
  from c have d: "distinct (pre @ this # post)" by (rule chain_distinct)
  from shard_bucket [OF ok idx] c obtain
    ridx: "reach h (strs sh ! idx) = set (pre @ this # post)"
    and eidx: "\<forall>a\<in>set (pre @ this # post). \<exists>e. h a = Some e \<and> entry_ok H seed si (capacity sh) idx e"
    using chain_unique by blast
  have keep: "\<exists>e'. h' a = Some e' \<and> entry_ok H seed si (capacity sh) i e'"
    if "h a = Some e" "entry_ok H seed si (capacity sh) i e" for a e i
  proof -
    from eraseD [OF er that(1)] obtain e' where e': "h' a = Some e'" "hash e' = hash e"
        "length_f e' = length_f e" "payload e' = payload e" by blast
    have "entry_ok H seed si (capacity sh) i e'"
      using that(2) unfolding entry_ok_def InternedSlice_def e'(2,3,4) .
    with e'(1) show ?thesis by simp
  qed
  have bk: "\<exists>xs. chain h' (strs ?sh ! i) xs \<and>
      reach h' (strs ?sh ! i) = reach h (strs sh ! i) - {this} \<and>
      (\<forall>a\<in>set xs. \<exists>e. h' a = Some e \<and> entry_ok H seed si (capacity sh) i e)"
    if i: "i < capacity sh" for i
  proof (cases "i = idx")
    case True
    have c2: "chain h' (strs ?sh ! i) (pre @ post)"
      using True i len c' by simp
    have "reach h' (strs ?sh ! i) = set (pre @ post)" using c2 by (rule reach_chain)
    also have "\<dots> = reach h (strs sh ! i) - {this}"
      using d True ridx by auto
    finally have r2: "reach h' (strs ?sh ! i) = reach h (strs sh ! i) - {this}" .
    have "\<forall>a\<in>set (pre @ post). \<exists>e. h' a = Some e \<and> entry_ok H seed si (capacity sh) i e"
      using eidx keep True by fastforce
    with c2 r2 show ?thesis by blast
  next
    case False
    from shard_bucket [OF ok i] obtain xs where xs: "chain h (strs sh ! i) xs"
      "reach h (strs sh ! i) = set xs"
      "\<forall>a\<in>set xs. \<exists>e. h a = Some e \<and> entry_ok H seed si (capacity sh) i e"
      by blast
    have disj: "a \<notin> set (pre @ this # post)" if a: "a \<in> set xs" for a
    proof
      assume "a \<in> set (pre @ this # post)"
      with eidx obtain e where e: "h a = Some e" "entry_ok H seed si (capacity sh) idx e" by blast
      from xs(3) a e(1) have "entry_ok H seed si (capacity sh) i e" by auto
      from entry_okD(4) [OF this] entry_okD(4) [OF e(2)] False show False by simp
    qed
    then have same: "\<forall>a\<in>set xs. h' a = h a" using fr by auto
    then have "chain h' (strs sh ! i) xs"
      using xs(1) by (subst chain_cong [where h = h]) auto
    then have c2: "chain h' (strs ?sh ! i) xs" using False i len by simp
    have "this \<notin> set xs" using disj by auto
    then have r2: "reach h' (strs ?sh ! i) = reach h (strs sh ! i) - {this}"
      using reach_chain [OF c2] xs(2) by simp
    have "\<forall>a\<in>set xs. \<exists>e. h' a = Some e \<and> entry_ok H seed si (capacity sh) i e"
      using xs(3) same by auto
    with c2 r2 show ?thesis by blast
  qed
  have rr: "reach h' (strs ?sh ! i) = reach h (strs sh ! i) - {this}" if "i < capacity sh" for i
    using bk [OF that] by blast
  have E: "shard_entries h' ?sh = ?E - {this}"
  proof -
    have "shard_entries h' ?sh = (\<Union>i<capacity sh. reach h' (strs ?sh ! i))"
      by (simp add: shard_entries_def len)
    also have "\<dots> = (\<Union>i<capacity sh. reach h (strs sh ! i) - {this})"
      using rr by simp
    also have "\<dots> = (\<Union>i<capacity sh. reach h (strs sh ! i)) - {this}"
      by auto
    finally show ?thesis by (simp add: shard_entries_def len)
  qed
  have thisE: "this \<in> ?E"
    using ridx idx len by (auto simp: shard_entries_def)
  have lc: "live h' a = live h a \<and> content h' a = content h a" if "a \<in> ?E" for a
  proof -
    from shard_entry [OF ok that] obtain e where e: "h a = Some e" by blast
    from eraseD [OF er e] obtain e' where "h' a = Some e'" "refcnt e' = refcnt e"
        "length_f e' = length_f e" "payload e' = payload e" by blast
    with e show ?thesis by (simp add: live_def content_def InternedSlice_def)
  qed
  have u: "unique_live h' (?E - {this})"
    unfolding unique_live_def
  proof (intro ballI impI)
    fix a b assume a: "a \<in> ?E - {this}" and b: "b \<in> ?E - {this}"
      and l: "live h' a \<and> live h' b \<and> content h' a = content h' b"
    from a b have aE: "a \<in> ?E" and bE: "b \<in> ?E" by simp_all
    from lc [OF aE] lc [OF bE] l
    have "live h a \<and> live h b \<and> content h a = content h b" by simp
    with uniq aE bE show "a = b" unfolding unique_live_def by blast
  qed
  have capeq: "capacity ?sh = capacity sh" by simp
  have "count ?sh = card (?E - {this})"
    using cnt thisE finite_shard_entries [of h sh] by simp
  moreover have "\<forall>i<capacity ?sh. \<exists>xs. chain h' (strs ?sh ! i) xs \<and>
      (\<forall>a\<in>set xs. \<exists>e. h' a = Some e \<and> entry_ok H seed si (capacity ?sh) i e)"
    unfolding capeq using bk by blast
  moreover have "0 < capacity ?sh" "length (strs ?sh) = capacity ?sh"
    using cap len by simp_all
  ultimately have "shard_ok H seed h' si ?sh"
    unfolding shard_ok_def E using u by blast
  with E show ?thesis by simp
qed

lemma shards_disjoint:
  assumes "shard_ok H seed h si sh" "shard_ok H seed h sj sh'"
    "a \<in> shard_entries h sh" "a \<in> shard_entries h sh'"
  shows "si = sj"
proof -
  from shard_entry [OF assms(1,3)] obtain e i where e: "h a = Some e"
    "entry_ok H seed si (capacity sh) i e" by blast
  from shard_entry [OF assms(2,4)] e(1) obtain i' where "entry_ok H seed sj (capacity sh') i' e"
    by auto
  from entry_okD(3) [OF this] entry_okD(3) [OF e(2)] show ?thesis by simp
qed

lemma shard_ok_frame:
  assumes ok: "shard_ok H seed h si sh"
    and fr: "\<forall>a\<in>shard_entries h sh. h' a = h a"
  shows "shard_ok H seed h' si sh \<and> shard_entries h' sh = shard_entries h sh"
proof (rule shard_ok_heap_cong [OF ok])
  fix a assume a: "a \<in> shard_entries h sh"
  from shard_entry [OF ok a] obtain e where "h a = Some e" by blast
  moreover from fr a have "h' a = h a" by blast
  ultimately show "kept h h' a" by (rule kept_refl)
qed

lemma dtor_ok:
  assumes inv: "table_inv H st" and mem: "this \<in> table_entries st"
  shows "\<exists>st'. InternedSliceRefcount_dtor this st = Some (Inr st') \<and>
           table_inv H st' \<and> dtor_post this st st'"
proof -
  let ?h = "heap st"
  let ?seed = "g_hash_seed st"
  from inv have len: "length (g_shards st) = SHARD_COUNT" by (simp add: table_inv_def)
  from table_entry [OF inv mem] obtain si t i where t: "si < SHARD_COUNT"
    "this \<in> shard_entries ?h (g_shards st ! si)" "i < capacity (g_shards st ! si)"
    "?h this = Some t" "entry_ok H ?seed si (capacity (g_shards st ! si)) i t"
    "this \<in> reach ?h (strs (g_shards st ! si) ! i)"
    by blast
  let ?sh = "g_shards st ! si"
  have si: "SHARD_IDX (hash t) = si" and i: "TABLE_IDX (hash t) (capacity ?sh) = i"
    using entry_okD(3,4) [OF t(5)] by simp_all
  have ok: "shard_ok H ?seed ?h si ?sh" using inv t(1) by (rule table_inv_shard)
  then have cap: "0 < capacity ?sh" and lens: "length (strs ?sh) = capacity ?sh"
    and cnt: "count ?sh = card (shard_entries ?h ?sh)"
    by (simp_all add: shard_ok_def)
  have "card (shard_entries ?h ?sh) \<noteq> 0"
    using t(2) finite_shard_entries [of ?h ?sh] by auto
  with cnt have cnt0: "count ?sh \<noteq> 0" by simp
  from shard_bucket [OF ok t(3)] obtain xs where xs: "chain ?h (strs ?sh ! i) xs"
    "reach ?h (strs ?sh ! i) = set xs" "set xs \<subseteq> shard_entries ?h ?sh"
    by blast
  from t(6) xs(2) obtain pre post where split: "xs = pre @ this # post"
    by (auto dest: split_list)
  note c = xs(1) [unfolded split]
  from chain_suffix [OF c] t(4) have post: "chain ?h (bucket_next t) post"
    by (auto split: option.splits)
  have scan: "unlink_scan ?h this (Bucket i) (strs ?sh ! i) =
      Some (Inr (if pre = [] then Bucket i else NextOf (last pre)))"
    using c by (rule unlink_scan_found)
  have "\<exists>h' p'. InternedSliceRefcount_dtor this st =
        Some (Inr (st\<lparr>heap := h', g_shards := (g_shards st)
           [si := ?sh\<lparr>strs := (strs ?sh)[i := p'], count := count ?sh - 1\<rparr>]\<rparr>)) \<and>
      erase h' = erase ?h \<and> (\<forall>a. a \<notin> set pre \<longrightarrow> h' a = ?h a) \<and> chain h' p' (pre @ post)"
  proof (cases "pre = []")
    case True
    have "InternedSliceRefcount_dtor this st =
        Some (Inr (st\<lparr>heap := ?h, g_shards := (g_shards st)
           [si := ?sh\<lparr>strs := (strs ?sh)[i := bucket_next t], count := count ?sh - 1\<rparr>]\<rparr>))"
      using t(1,3,4) len si i cap lens scan True cnt0
      by (simp add: InternedSliceRefcount_dtor_def Let_def)
    moreover have "chain ?h (bucket_next t) (pre @ post)" using True post by simp
    ultimately show ?thesis by blast
  next
    case False
    then obtain pre0 c0 where pre: "pre = pre0 @ [c0]"
      by (metis rev_exhaust)
    from xs(1) split pre have "c0 \<in> set xs" by simp
    from chain_dom [OF xs(1) this] obtain ec where ec: "?h c0 = Some ec" by blast
    let ?h' = "?h(c0 \<mapsto> ec\<lparr>bucket_next := bucket_next t\<rparr>)"
    have c2: "chain ?h (strs ?sh ! i) (pre0 @ c0 # this # post)"
      using c pre by simp
    have "chain ?h' (strs ?sh ! i) (pre0 @ c0 # post)"
      using c2 ec t(4) by (rule chain_unlink)
    then have c3: "chain ?h' (strs ?sh ! i) (pre @ post)" using pre by simp
    have upd: "(strs ?sh)[i := strs ?sh ! i] = strs ?sh" by simp
    have "InternedSliceRefcount_dtor this st =
        Some (Inr (st\<lparr>heap := ?h', g_shards := (g_shards st)
           [si := ?sh\<lparr>strs := (strs ?sh)[i := strs ?sh ! i], count := count ?sh - 1\<rparr>]\<rparr>))"
      unfolding upd using t(1,3,4) len si i cap lens scan False cnt0 pre ec
      by (simp add: InternedSliceRefcount_dtor_def Let_def)
    moreover have "erase ?h' = erase ?h" using ec by (rule erase_upd_next)
    moreover have "\<forall>a. a \<notin> set pre \<longrightarrow> ?h' a = ?h a" using pre by simp
    ultimately show ?thesis using c3 by blast
  qed
  then obtain h' p' where r: "InternedSliceRefcount_dtor this st =
        Some (Inr (st\<lparr>heap := h', g_shards := (g_shards st)
           [si := ?sh\<lparr>strs := (strs ?sh)[i := p'], count := count ?sh - 1\<rparr>]\<rparr>))"
      "erase h' = erase ?h" "\<forall>a. a \<notin> set pre \<longrightarrow> h' a = ?h a" "chain h' p' (pre @ post)"
    by blast
  let ?sh' = "?sh\<lparr>strs := (strs ?sh)[i := p'], count := count ?sh - 1\<rparr>"
  let ?st = "st\<lparr>heap := h', g_shards := (g_shards st)[si := ?sh']\<rparr>"
  from shard_ok_remove [OF ok t(3) c r(2,3,4)]
  have ok': "shard_ok H ?seed h' si ?sh'"
    and E': "shard_entries h' ?sh' = shard_entries ?h ?sh - {this}"
    by simp_all
  have other: "shard_ok H ?seed h' sj (g_shards st ! sj) \<and>
      shard_entries h' (g_shards st ! sj) = shard_entries ?h (g_shards st ! sj) \<and>
      this \<notin> shard_entries ?h (g_shards st ! sj)"
    if sj: "sj < SHARD_COUNT" "sj \<noteq> si" for sj
  proof -
    have okj: "shard_ok H ?seed ?h sj (g_shards st ! sj)" using inv sj(1) by (rule table_inv_shard)
    have nin: "a \<notin> shard_entries ?h ?sh" if "a \<in> shard_entries ?h (g_shards st ! sj)" for a
      using shards_disjoint [OF okj ok that] sj(2) by blast
    have "\<forall>a\<in>shard_entries ?h (g_shards st ! sj). h' a = ?h a"
    proof
      fix a assume "a \<in> shard_entries ?h (g_shards st ! sj)"
      from nin [OF this] xs(3) split have "a \<notin> set pre" by auto
      with r(3) show "h' a = ?h a" by simp
    qed
    from shard_ok_frame [OF okj this] nin t(2) show ?thesis by blast
  qed
  have inv': "table_inv H ?st"
    unfolding table_inv_def
  proof (intro conjI allI impI)
    show "length (g_shards ?st) = SHARD_COUNT" using len by simp
  next
    fix sj assume sj: "sj < SHARD_COUNT"
    show "shard_ok H (g_hash_seed ?st) (heap ?st) sj (g_shards ?st ! sj)"
    proof (cases "sj = si")
      case True
      with ok' t(1) len show ?thesis by simp
    next
      case False
      with other [OF sj] show ?thesis by simp
    qed
  qed
  have per: "capacity (g_shards ?st ! sj) = capacity (g_shards st ! sj) \<and>
        shard_entries (heap ?st) (g_shards ?st ! sj) =
          shard_entries ?h (g_shards st ! sj) - {this} \<and>
        count (g_shards ?st ! sj) =
          (if this \<in> shard_entries ?h (g_shards st ! sj)
           then count (g_shards st ! sj) - 1 else count (g_shards st ! sj))"
    if "sj < length (g_shards st)" for sj
  proof (cases "sj = si")
    case True
    with E' t(1,2) len show ?thesis by simp
  next
    case False
    with other [of sj] that len show ?thesis by simp
  qed
  have "dtor_post this st ?st"
    unfolding dtor_post_def using per r(2) by simp
  with r(1) inv' show ?thesis by blast
qed

lemma dtor_missing:
  assumes inv: "table_inv H st" and t: "heap st this = Some t"
    and nmem: "this \<notin> table_entries st"
  shows "InternedSliceRefcount_dtor this st = Some (Inl NullDeref)"
proof -
  let ?h = "heap st"
  let ?si = "SHARD_IDX (hash t)"
  let ?sh = "g_shards st ! ?si"
  let ?idx = "TABLE_IDX (hash t) (capacity ?sh)"
  have si: "?si < SHARD_COUNT" by (rule SHARD_IDX_less)
  from inv have len: "length (g_shards st) = SHARD_COUNT" by (simp add: table_inv_def)
  have ok: "shard_ok H (g_hash_seed st) ?h ?si ?sh" using inv si by (rule table_inv_shard)
  then have cap: "0 < capacity ?sh" and lens: "length (strs ?sh) = capacity ?sh"
    by (simp_all add: shard_ok_def)
  have idx: "?idx < capacity ?sh" using cap by (rule TABLE_IDX_less)
  from shard_bucket [OF ok idx] obtain xs where xs: "chain ?h (strs ?sh ! ?idx) xs"
    "set xs \<subseteq> shard_entries ?h ?sh"
    by blast
  have "shard_entries ?h ?sh \<subseteq> table_entries st"
    using si len by (auto simp: table_entries_def)
  with xs(2) nmem have nx: "this \<notin> set xs" by blast
  from unlink_scan_missing [OF xs(1) nx, of "Bucket ?idx"]
  show ?thesis
    using t si len cap idx lens by (simp add: InternedSliceRefcount_dtor_def Let_def)
qed

lemma the_chain_eq: "chain h p xs \<Longrightarrow> the_chain h p = xs"
  unfolding the_chain_def by (rule the_equality) (auto intro: chain_unique)

lemma leak_lines_append: "leak_lines dump h (xs @ ys) = leak_lines dump h xs @ leak_lines dump h ys"
  by (simp add: leak_lines_def)

lemma leak_lines_Nil [simp]: "leak_lines dump h [] = []"
  by (simp add: leak_lines_def)

lemma dump_chain_ok:
  "chain h p xs \<Longrightarrow> dump_chain dump p h evs = Some (Inr (evs @ leak_lines dump h xs))"
proof (induction xs arbitrary: p evs)
  case Nil
  then show ?case by (subst dump_chain.simps) simp
next
  case (Cons a xs)
  from Cons.prems obtain e where p: "p = Some a" and e: "h a = Some e"
    and tl: "chain h (bucket_next e) xs"
    by (auto split: option.splits)
  have "leak_lines dump h (a # xs) =
      [Log_leaked (dump (InternedSlice e)), Gpr_free_text] @ leak_lines dump h xs"
    using e by (simp add: leak_lines_def content_def)
  with Cons.IH [OF tl] p e show ?case
    by (subst dump_chain.simps) simp
qed

lemma dump_buckets_ok:
  assumes "\<forall>j<length (strs sh). \<exists>xs. chain h (strs sh ! j) xs" "j + k = length (strs sh)"
  shows "dump_buckets dump k j sh h evs =
     Some (Inr (evs @ leak_lines dump h
        (concat (map (\<lambda>j. the_chain h (strs sh ! j)) [j..<length (strs sh)]))))"
  using assms(2)
proof (induction k arbitrary: j evs)
  case 0
  then show ?case by simp
next
  case (Suc k)
  then have j: "j < length (strs sh)" by simp
  with assms(1) obtain xs where xs: "chain h (strs sh ! j) xs" by blast
  have up: "[j..<length (strs sh)] = j # [Suc j..<length (strs sh)]"
    using j by (simp add: upt_conv_Cons)
  from Suc.prems have "Suc j + k = length (strs sh)" by simp
  from Suc.IH [OF this] dump_chain_ok [OF xs] j show ?case
    by (simp add: up the_chain_eq [OF xs] leak_lines_append)
qed

lemma shutdown_shards_ok:
  assumes wf: "\<forall>i<length (g_shards st). length (strs (g_shards st ! i)) = capacity (g_shards st ! i) \<and>
      (\<forall>j<length (strs (g_shards st ! i)). \<exists>xs. chain (heap st) (strs (g_shards st ! i) ! j) xs)"
    and "i + k = length (g_shards st)"
  shows "shutdown_shards dump aol k i st evs =
     Some (Inr (evs @ fst (shards_events dump aol (heap st) i (drop i (g_shards st))),
                snd (shards_events dump aol (heap st) i (drop i (g_shards st)))))"
  using assms(2)
proof (induction k arbitrary: i evs)
  case 0
  then show ?case by simp
next
  case (Suc k)
  then have i: "i < length (g_shards st)" by simp
  let ?sh = "g_shards st ! i"
  from wf i have len: "length (strs ?sh) = capacity ?sh"
    and ch: "\<forall>j<length (strs ?sh). \<exists>xs. chain (heap st) (strs ?sh ! j) xs"
    by blast+
  have dr: "drop i (g_shards st) = ?sh # drop (Suc i) (g_shards st)"
    using i by (simp add: Cons_nth_drop_Suc)
  have db: "dump_buckets dump (capacity ?sh) 0 ?sh (heap st) evs' =
      Some (Inr (evs' @ leak_lines dump (heap st) (shard_addrs (heap st) ?sh)))" for evs'
    using dump_buckets_ok [OF ch, of 0 "capacity ?sh"] len by (simp add: shard_addrs_def)
  from Suc.prems have "Suc i + k = length (g_shards st)" by simp
  note IH = Suc.IH [OF this]
  show ?case
  proof (cases aol)
    case True
    with i IH show ?thesis by (simp add: dr db)
  next
    case False
    with i IH show ?thesis by (simp add: dr db)
  qed
qed

lemma leaked_texts_simps [simp]:
  "leaked_texts [] = []"
  "leaked_texts (Log_leaked t # evs) = t # leaked_texts evs"
  "leaked_texts (Log_warning n # evs) = leaked_texts evs"
  "leaked_texts (Gpr_free_text # evs) = leaked_texts evs"
  "leaked_texts (Gpr_free_strs i # evs) = leaked_texts evs"
  "leaked_texts (Abort # evs) = leaked_texts evs"
  "leaked_texts (Delete_g_shards # evs) = leaked_texts evs"
  "leaked_texts (evs @ evs') = leaked_texts evs @ leaked_texts evs'"
  by (simp_all add: leaked_texts_def)

lemma freed_strs_simps [simp]:
  "freed_strs [] = []"
  "freed_strs (Log_leaked t # evs) = freed_strs evs"
  "freed_strs (Log_warning n # evs) = freed_strs evs"
  "freed_strs (Gpr_free_text # evs) = freed_strs evs"
  "freed_strs (Gpr_free_strs i # evs) = i # freed_strs evs"
  "freed_strs (Abort # evs) = freed_strs evs"
  "freed_strs (Delete_g_shards # evs) = freed_strs evs"
  "freed_strs (evs @ evs') = freed_strs evs @ freed_strs evs'"
  by (simp_all add: freed_strs_def)

lemma warnings_simps [simp]:
  "warnings [] = []"
  "warnings (Log_leaked t # evs) = warnings evs"
  "warnings (Log_warning n # evs) = n # warnings evs"
  "warnings (Gpr_free_text # evs) = warnings evs"
  "warnings (Gpr_free_strs i # evs) = warnings evs"
  "warnings (Abort # evs) = warnings evs"
  "warnings (Delete_g_shards # evs) = warnings evs"
  "warnings (evs @ evs') = warnings evs @ warnings evs'"
  by (simp_all add: warnings_def)

lemma leak_lines_facts [simp]:
  "leaked_texts (leak_lines dump h xs) = map (\<lambda>a. dump (content h a)) xs"
  "freed_strs (leak_lines dump h xs) = []"
  "warnings (leak_lines dump h xs) = []"
  "Abort \<notin> set (leak_lines dump h xs)"
  "Delete_g_shards \<notin> set (leak_lines dump h xs)"
  by (induction xs) (simp_all add: leak_lines_def)

lemma shards_events_leaked:
  assumes "aol \<longrightarrow> length (filter (\<lambda>sh. count sh \<noteq> 0) shs) \<le> 1"
    and "\<forall>sh\<in>set shs. count sh = 0 \<longrightarrow> shard_addrs h sh = []"
  shows "leaked_texts (fst (shards_events dump aol h i shs)) =
           map (\<lambda>a. dump (content h a)) (concat (map (shard_addrs h) shs))"
  using assms
proof (induction shs arbitrary: i)
  case Nil
  then show ?case by simp
next
  case (Cons sh shs)
  show ?case
  proof (cases "count sh \<noteq> 0 \<and> aol")
    case True
    with Cons.prems(1) have "filter (\<lambda>sh. count sh \<noteq> 0) shs = []" by simp
    then have "\<forall>s\<in>set shs. count s = 0" by (simp add: filter_empty_conv)
    with Cons.prems(2) have "\<forall>s\<in>set shs. shard_addrs h s = []" by simp
    then have "concat (map (shard_addrs h) shs) = []" by simp
    with True show ?thesis by simp
  next
    case False
    have "aol \<longrightarrow> length (filter (\<lambda>sh. count sh \<noteq> 0) shs) \<le> 1"
      using Cons.prems(1) by (simp split: if_splits)
    moreover have "\<forall>sh\<in>set shs. count sh = 0 \<longrightarrow> shard_addrs h sh = []"
      using Cons.prems(2) by simp
    ultimately have IH: "leaked_texts (fst (shards_events dump aol h (Suc i) shs)) =
           map (\<lambda>a. dump (content h a)) (concat (map (shard_addrs h) shs))"
      by (rule Cons.IH)
    from False Cons.prems(2) IH show ?thesis by auto
  qed
qed

lemma shards_events_no_abort:
  assumes "aol \<longrightarrow> (\<forall>sh\<in>set shs. count sh = 0)"
  shows "snd (shards_events dump aol h i shs) = False \<and>
         freed_strs (fst (shards_events dump aol h i shs)) = [i..<i + length shs] \<and>
         Abort \<notin> set (fst (shards_events dump aol h i shs)) \<and>
         Delete_g_shards \<notin> set (fst (shards_events dump aol h i shs))"
  using assms
proof (induction shs arbitrary: i)
  case Nil
  then show ?case by simp
next
  case (Cons sh shs)
  then have "aol \<longrightarrow> (\<forall>sh\<in>set shs. count sh = 0)" by simp
  from Cons.IH [OF this, of "Suc i"] Cons.prems show ?case
    by (auto simp: upt_conv_Cons simp del: upt_Suc)
qed

lemma shards_events_abort:
  assumes "aol" "\<exists>sh\<in>set shs. count sh \<noteq> 0"
  shows "snd (shards_events dump aol h i shs) = True \<and>
         freed_strs (fst (shards_events dump aol h i shs)) =
           [i..<i + length (takeWhile (\<lambda>sh. count sh = 0) shs)] \<and>
         fst (shards_events dump aol h i shs) \<noteq> [] \<and>
         last (fst (shards_events dump aol h i shs)) = Abort \<and>
         Delete_g_shards \<notin> set (fst (shards_events dump aol h i shs))"
  using assms(2)
proof (induction shs arbitrary: i)
  case Nil
  then show ?case by simp
next
  case (Cons sh shs)
  show ?case
  proof (cases "count sh = 0")
    case True
    with Cons.prems have "\<exists>sh\<in>set shs. count sh \<noteq> 0" by simp
    from Cons.IH [OF this, of "Suc i"] True assms(1) show ?thesis
      by (auto simp: upt_conv_Cons simp del: upt_Suc)
  next
    case False
    with assms(1) show ?thesis by simp
  qed
qed

lemma shards_events_warnings:
  "\<forall>sh\<in>set shs. count sh = 0 \<Longrightarrow> warnings (fst (shards_events dump aol h i shs)) = []"
  by (induction shs arbitrary: i) simp_all

lemma distinct_concat_map:
  assumes "distinct js" "\<forall>j\<in>set js. distinct (f j)"
    "\<forall>j\<in>set js. \<forall>k\<in>set js. j \<noteq> k \<longrightarrow> set (f j) \<inter> set (f k) = {}"
  shows "distinct (concat (map f js))"
  using assms
proof (induction js)
  case Nil
  then show ?case by simp
next
  case (Cons j js)
  have "distinct (concat (map f js))" using Cons by simp
  moreover have "distinct (f j)" using Cons.prems(2) by simp
  moreover have "set (f j) \<inter> set (f k) = {}" if "k \<in> set js" for k
  proof -
    from that Cons.prems(1) have "j \<noteq> k" by auto
    with Cons.prems(3) that show ?thesis by simp
  qed
  ultimately show ?case by auto
qed

lemma shard_addrs_ok:
  assumes ok: "shard_ok H seed h si sh"
  shows "set (shard_addrs h sh) = shard_entries h sh \<and> distinct (shard_addrs h sh) \<and>
         length (shard_addrs h sh) = count sh"
proof -
  have len: "length (strs sh) = capacity sh" and cnt: "count sh = card (shard_entries h sh)"
    using ok by (simp_all add: shard_ok_def)
  let ?f = "\<lambda>j. the_chain h (strs sh ! j)"
  have bk: "chain h (strs sh ! j) (?f j) \<and> reach h (strs sh ! j) = set (?f j) \<and>
      (\<forall>a\<in>set (?f j). \<exists>e. h a = Some e \<and> entry_ok H seed si (capacity sh) j e)"
    if "j < capacity sh" for j
  proof -
    from shard_bucket [OF ok that] obtain xs where xs: "chain h (strs sh ! j) xs"
      "reach h (strs sh ! j) = set xs"
      "\<forall>a\<in>set xs. \<exists>e. h a = Some e \<and> entry_ok H seed si (capacity sh) j e" by blast
    from the_chain_eq [OF xs(1)] xs show ?thesis by simp
  qed
  have "set (shard_addrs h sh) = (\<Union>j<capacity sh. set (?f j))"
    by (auto simp: shard_addrs_def len)
  also have "\<dots> = (\<Union>j<capacity sh. reach h (strs sh ! j))"
    using bk by simp
  finally have s: "set (shard_addrs h sh) = shard_entries h sh"
    by (simp add: shard_entries_def len)
  have d: "distinct (shard_addrs h sh)"
    unfolding shard_addrs_def
  proof (rule distinct_concat_map)
    show "distinct [0..<length (strs sh)]" by simp
    show "\<forall>j\<in>set [0..<length (strs sh)]. distinct (?f j)"
    proof
      fix j assume "j \<in> set [0..<length (strs sh)]"
      then have "j < capacity sh" using len by simp
      from bk [OF this] have "chain h (strs sh ! j) (?f j)" by blast
      then show "distinct (?f j)" by (rule chain_distinct)
    qed
    show "\<forall>j\<in>set [0..<length (strs sh)]. \<forall>k\<in>set [0..<length (strs sh)].
        j \<noteq> k \<longrightarrow> set (?f j) \<inter> set (?f k) = {}"
    proof (intro ballI impI)
      fix j k assume j: "j \<in> set [0..<length (strs sh)]" and k: "k \<in> set [0..<length (strs sh)]"
        and ne: "j \<noteq> k"
      show "set (?f j) \<inter> set (?f k) = {}"
      proof (rule ccontr)
        assume "set (?f j) \<inter> set (?f k) \<noteq> {}"
        then obtain a where a: "a \<in> set (?f j)" "a \<in> set (?f k)" by auto
        from bk [of j] j len a(1) obtain e where e: "h a = Some e"
          "entry_ok H seed si (capacity sh) j e" by auto
        from bk [of k] k len a(2) e(1) have "entry_ok H seed si (capacity sh) k e" by auto
        from entry_okD(4) [OF this] entry_okD(4) [OF e(2)] ne show False by simp
      qed
    qed
  qed
  from d have "length (shard_addrs h sh) = card (set (shard_addrs h sh))"
    by (simp add: distinct_card)
  with s cnt d show ?thesis by simp
qed

lemma table_addrs_ok:
  assumes inv: "table_inv H st"
  shows "set (table_addrs st) = table_entries st \<and> distinct (table_addrs st)"
proof -
  let ?h = "heap st"
  let ?f = "\<lambda>i. shard_addrs ?h (g_shards st ! i)"
  from inv have len: "length (g_shards st) = SHARD_COUNT" by (simp add: table_inv_def)
  have "map (shard_addrs ?h) (g_shards st) = map ?f [0..<length (g_shards st)]"
    by (rule nth_equalityI) simp_all
  then have ta: "table_addrs st = concat (map ?f [0..<SHARD_COUNT])"
    by (simp add: table_addrs_def len)
  have ok: "shard_ok H (g_hash_seed st) ?h i (g_shards st ! i)" if "i < SHARD_COUNT" for i
    using inv that by (rule table_inv_shard)
  have "set (table_addrs st) = (\<Union>i<SHARD_COUNT. set (?f i))"
    by (auto simp: ta)
  also have "\<dots> = (\<Union>i<SHARD_COUNT. shard_entries ?h (g_shards st ! i))"
    using shard_addrs_ok [OF ok] by simp
  finally have s: "set (table_addrs st) = table_entries st"
    by (simp add: table_entries_def len)
  have "distinct (table_addrs st)"
    unfolding ta
  proof (rule distinct_concat_map)
    show "distinct [0..<SHARD_COUNT]" by simp
    show "\<forall>i\<in>set [0..<SHARD_COUNT]. distinct (?f i)"
      using shard_addrs_ok [OF ok] by simp
    show "\<forall>i\<in>set [0..<SHARD_COUNT]. \<forall>k\<in>set [0..<SHARD_COUNT].
        i \<noteq> k \<longrightarrow> set (?f i) \<inter> set (?f k) = {}"
    proof (intro ballI impI)
      fix i k assume i: "i \<in> set [0..<SHARD_COUNT]" and k: "k \<in> set [0..<SHARD_COUNT]"
        and ne: "i \<noteq> k"
      from i k have oki: "shard_ok H (g_hash_seed st) ?h i (g_shards st ! i)"
        and okk: "shard_ok H (g_hash_seed st) ?h k (g_shards st ! k)"
        using ok by simp_all
      show "set (?f i) \<inter> set (?f k) = {}"
      proof (rule ccontr)
        assume "set (?f i) \<inter> set (?f k) \<noteq> {}"
        then obtain a where "a \<in> set (?f i)" "a \<in> set (?f k)" by auto
        with shard_addrs_ok [OF oki] shard_addrs_ok [OF okk]
        have "a \<in> shard_entries ?h (g_shards st ! i)" "a \<in> shard_entries ?h (g_shards st ! k)"
          by simp_all
        from shards_disjoint [OF oki okk this] ne show False by simp
      qed
    qed
  qed
  with s show ?thesis by simp
qed

lemma table_inv_wf:
  assumes inv: "table_inv H st"
  shows "\<forall>i<length (g_shards st). length (strs (g_shards st ! i)) = capacity (g_shards st ! i) \<and>
      (\<forall>j<length (strs (g_shards st ! i)). \<exists>xs. chain (heap st) (strs (g_shards st ! i) ! j) xs)"
proof (intro allI impI)
  fix i assume "i < length (g_shards st)"
  with inv have "shard_ok H (g_hash_seed st) (heap st) i (g_shards st ! i)"
    by (simp add: table_inv_def)
  then show "length (strs (g_shards st ! i)) = capacity (g_shards st ! i) \<and>
      (\<forall>j<length (strs (g_shards st ! i)). \<exists>xs. chain (heap st) (strs (g_shards st ! i) ! j) xs)"
    unfolding shard_ok_def by auto
qed

lemma shutdown_ok:
  assumes inv: "table_inv H st"
  shows "grpc_slice_intern_shutdown dump aol st =
     Some (Inr (if snd (shards_events dump aol (heap st) 0 (g_shards st))
                then (fst (shards_events dump aol (heap st) 0 (g_shards st)), None)
                else (fst (shards_events dump aol (heap st) 0 (g_shards st)) @ [Delete_g_shards],
                      Some (st\<lparr>g_shards := []\<rparr>))))"
proof -
  from inv have len: "length (g_shards st) = SHARD_COUNT" by (simp add: table_inv_def)
  then have "0 + SHARD_COUNT = length (g_shards st)" by simp
  from shutdown_shards_ok [OF table_inv_wf [OF inv] this, of dump aol "[]"]
  show ?thesis by (simp add: grpc_slice_intern_shutdown_def case_prod_beta)
qed

lemma count_zero_iff:
  assumes inv: "table_inv H st"
  shows "(\<forall>sh\<in>set (g_shards st). count sh = 0) \<longleftrightarrow> table_entries st = {}"
proof -
  from inv have len: "length (g_shards st) = SHARD_COUNT" by (simp add: table_inv_def)
  have c: "count (g_shards st ! i) = 0 \<longleftrightarrow> shard_entries (heap st) (g_shards st ! i) = {}"
    if "i < SHARD_COUNT" for i
    using table_inv_shard [OF inv that] finite_shard_entries [of "heap st" "g_shards st ! i"]
    by (simp add: shard_ok_def)
  have "(\<forall>sh\<in>set (g_shards st). count sh = 0) \<longleftrightarrow> (\<forall>i<SHARD_COUNT. count (g_shards st ! i) = 0)"
    using len by (simp add: all_set_conv_all_nth)
  also have "\<dots> \<longleftrightarrow> table_entries st = {}"
    using c len by (auto simp: table_entries_def)
  finally show ?thesis .
qed

lemma count_zero_addrs:
  assumes inv: "table_inv H st"
  shows "\<forall>sh\<in>set (g_shards st). count sh = 0 \<longrightarrow> shard_addrs (heap st) sh = []"
proof (intro ballI impI)
  fix sh assume "sh \<in> set (g_shards st)" and z: "count sh = 0"
  then obtain i where "i < length (g_shards st)" "sh = g_shards st ! i"
    by (metis in_set_conv_nth)
  with inv have "shard_ok H (g_hash_seed st) (heap st) i sh" by (simp add: table_inv_def)
  from shard_addrs_ok [OF this] z show "shard_addrs (heap st) sh = []" by simp
qed

lemma FindOrCreate_globals:
  assumes "FindOrCreateInternedSlice new hsh args st = Some (Inr (a, st'))"
  shows "g_hash_seed st' = g_hash_seed st \<and> g_forced_hash_seed st' = g_forced_hash_seed st"
  using assms
  unfolding FindOrCreateInternedSlice_def MatchInternedSliceLocked_def InternNewStringLocked_def
  by (auto simp: Let_def split: if_splits option.splits sum.splits prod.splits)

lemma dtor_globals:
  assumes "InternedSliceRefcount_dtor this st = Some (Inr st')"
  shows "g_hash_seed st' = g_hash_seed st \<and> g_forced_hash_seed st' = g_forced_hash_seed st"
  using assms
  unfolding InternedSliceRefcount_dtor_def
  by (auto simp: Let_def split: if_splits option.splits sum.splits slot.splits)

lemma shutdown_globals:
  assumes "grpc_slice_intern_shutdown dump aol st = Some (Inr (evs, Some st'))"
  shows "g_hash_seed st' = g_hash_seed st \<and> g_forced_hash_seed st' = g_forced_hash_seed st"
  using assms
  unfolding grpc_slice_intern_shutdown_def
  by (auto split: if_splits option.splits sum.splits prod.splits)

lemma step_forced:
  assumes "g_forced_hash_seed st" "step H dump c st = Some st'"
  shows "g_forced_hash_seed st' \<and> g_hash_seed st' = forced_seed (g_hash_seed st) [c]"
proof (cases c)
  case (Call_init t)
  with assms show ?thesis by (auto simp: grpc_slice_intern_init_def)
next
  case (Call_set_seed s)
  with assms show ?thesis by (auto simp: grpc_test_only_set_slice_hash_seed_def)
next
  case (Call_intern new buf)
  with assms obtain a where "ManagedMemorySlice H new buf st = Some (Inr (a, st'))"
    by (auto split: option.splits sum.splits)
  then have "FindOrCreateInternedSlice new (H buf (g_hash_seed st)) buf st = Some (Inr (a, st'))"
    by (simp add: ManagedMemorySlice_def)
  from FindOrCreate_globals [OF this] assms(1) Call_intern show ?thesis by simp
next
  case (Call_dtor this)
  with assms have "InternedSliceRefcount_dtor this st = Some (Inr st')"
    by (auto split: option.splits sum.splits)
  from dtor_globals [OF this] assms(1) Call_dtor show ?thesis by simp
next
  case (Call_shutdown aol)
  with assms obtain evs where "grpc_slice_intern_shutdown dump aol st = Some (Inr (evs, Some st'))"
    by (auto split: option.splits sum.splits)
  from shutdown_globals [OF this] assms(1) Call_shutdown show ?thesis by simp
qed

lemma forced_seed_Cons: "forced_seed s (c # cs) = forced_seed (forced_seed s [c]) cs"
  by (cases c) simp_all

lemma run_forced:
  "g_forced_hash_seed st \<Longrightarrow> run H dump cs st = Some st' \<Longrightarrow>
   g_forced_hash_seed st' \<and> g_hash_seed st' = forced_seed (g_hash_seed st) cs"
proof (induction cs arbitrary: st)
  case Nil
  then show ?case by simp
next
  case (Cons c cs)
  from Cons.prems(2) obtain st1 where s: "step H dump c st = Some st1"
    and r: "run H dump cs st1 = Some st'"
    by (auto split: option.splits)
  from step_forced [OF Cons.prems(1) s] have f: "g_forced_hash_seed st1"
    and e: "g_hash_seed st1 = forced_seed (g_hash_seed st) [c]" by simp_all
  from Cons.IH [OF f r] e show ?case
    by (simp add: forced_seed_Cons [of _ c cs])
qed

text \<open>
  C8. Init sets the seed from the clock reading (cast to 32 bits) when no seed was forced,
  and keeps the seed when one was: after the test-only override the seed init leaves is
  the forced one. In both cases it leaves exactly 32 shards, each with count 0, capacity 8
  and 8 null buckets; the flag and the entries are untouched.
\<close>

theorem init_state:
  "g_hash_seed (grpc_slice_intern_init tv_nsec st) =
     (if g_forced_hash_seed st then g_hash_seed st else word_of_int tv_nsec) \<and>
   g_hash_seed (grpc_slice_intern_init tv_nsec (grpc_test_only_set_slice_hash_seed seed st)) = seed \<and>
   g_shards (grpc_slice_intern_init tv_nsec st) =
     replicate 32 \<lparr>strs = replicate 8 None, count = 0, capacity = 8\<rparr> \<and>
   g_forced_hash_seed (grpc_slice_intern_init tv_nsec st) = g_forced_hash_seed st \<and>
   heap (grpc_slice_intern_init tv_nsec st) = heap st"
  by (simp add: grpc_slice_intern_init_def grpc_test_only_set_slice_hash_seed_def
      SHARD_COUNT_32 INITIAL_SHARD_CAPACITY_def map_replicate_const)

text \<open>
  C10. The test-only override sets the seed to its argument and sets the flag, whatever
  the state it is called in (before or after init). No call clears the flag: after the
  override, whatever sequence of calls returns (init any number of times, interning,
  destructors, shutdown, further overrides), the flag is set and the seed is the one most
  recently forced, never one read from the clock.
\<close>

theorem forced_seed_kept:
  "g_hash_seed (grpc_test_only_set_slice_hash_seed seed st) = seed \<and>
   g_forced_hash_seed (grpc_test_only_set_slice_hash_seed seed st) \<and>
   (\<forall>cs st'. run H dump cs (grpc_test_only_set_slice_hash_seed seed st) = Some st' \<longrightarrow>
      g_forced_hash_seed st' \<and> g_hash_seed st' = forced_seed seed cs)"
proof -
  let ?st = "grpc_test_only_set_slice_hash_seed seed st"
  have s: "g_hash_seed ?st = seed" and f: "g_forced_hash_seed ?st"
    by (simp_all add: grpc_test_only_set_slice_hash_seed_def)
  have "g_forced_hash_seed st' \<and> g_hash_seed st' = forced_seed seed cs"
    if "run H dump cs ?st = Some st'" for cs st'
    using run_forced [OF f that] s by simp
  with s f show ?thesis by blast
qed

lemma match_scan_sound:
  assumes "match_scan hsh args s h = Some r"
  shows "\<forall>a h'. r = Inr (Some a, h') \<longrightarrow>
      (\<exists>e. h a = Some e \<and> hash e = hsh \<and> InternedSlice e = args \<and> refcnt e \<noteq> 0 \<and>
           h' = h(a \<mapsto> e\<lparr>refcnt := refcnt e + 1\<rparr>))"
  using assms
proof (induction hsh args s h r rule: match_scan.raw_induct [rotated 1, consumes 1, case_names step])
  case (step f hsh args s h r)
  note 1 = step
  show ?case
  proof (cases s)
    case None
    with 1(2) show ?thesis by auto
  next
    case (Some c)
    show ?thesis
    proof (cases "h c")
      case None
      with Some 1(2) show ?thesis by auto
    next
      case e: (Some e)
      show ?thesis
      proof (cases "hash e = hsh \<and> InternedSlice e = args \<and> refcnt e \<noteq> 0")
        case True
        with Some e 1(2) show ?thesis by (auto simp: IncrementIfNonzero_def)
      next
        case False
        with Some e 1(2) have "f hsh args (bucket_next e) h = Some r"
          by (auto simp: IncrementIfNonzero_def split: if_splits)
        from 1(1) [OF this] show ?thesis .
      qed
    qed
  qed
qed

lemma match_scan_skip:
  "h c = Some e \<Longrightarrow> InternedSlice e \<noteq> args \<Longrightarrow>
   match_scan hsh args (Some c) h = match_scan hsh args (bucket_next e) h"
  by (subst match_scan.simps) simp

lemma Match_sound:
  assumes "MatchInternedSliceLocked hsh idx args st = Some (Inr (Some a, st'))"
  shows "\<exists>e. heap st a = Some e \<and> hash e = hsh \<and> InternedSlice e = args \<and> refcnt e \<noteq> 0 \<and>
     st' = st\<lparr>heap := (heap st)(a \<mapsto> e\<lparr>refcnt := refcnt e + 1\<rparr>)\<rparr>"
proof -
  let ?p = "strs (g_shards st ! SHARD_IDX hsh) ! idx"
  from assms obtain h' where m: "match_scan hsh args ?p (heap st) = Some (Inr (Some a, h'))"
    and st': "st' = st\<lparr>heap := h'\<rparr>"
    unfolding MatchInternedSliceLocked_def
    by (auto simp: Let_def split: if_splits option.splits sum.splits)
  from match_scan_sound [OF m] st' show ?thesis by auto
qed

text \<open>
  C2. An entry that \<^verbatim>\<open>MatchInternedSliceLocked\<close> returns has the hash asked for, the
  bytes asked for and a nonzero refcount (which the call increments). An entry of the
  chain with the hash asked for and other bytes is skipped: the scan from it is the scan
  from its successor. On a chain that ends, the scan returns the first entry with the hash,
  the bytes and a nonzero refcount, or null when there is none; it never fails there.
\<close>

theorem match_needs_hash_and_content:
  "(MatchInternedSliceLocked hsh idx args st = Some (Inr (Some a, st')) \<longrightarrow>
      (\<exists>e. heap st a = Some e \<and> hash e = hsh \<and> InternedSlice e = args \<and> refcnt e \<noteq> 0 \<and>
           st' = st\<lparr>heap := (heap st)(a \<mapsto> e\<lparr>refcnt := refcnt e + 1\<rparr>)\<rparr>)) \<and>
   (h c = Some e \<and> hash e = hsh \<and> InternedSlice e \<noteq> args \<longrightarrow>
      match_scan hsh args (Some c) h = match_scan hsh args (bucket_next e) h) \<and>
   (chain h s xs \<longrightarrow>
      match_scan hsh args s h =
        Some (Inr (case find (matches hsh args h) xs of
                     None \<Rightarrow> (None, h)
                   | Some b \<Rightarrow> (Some b, ref_entry h b))))"
  using Match_sound [of hsh idx args st a st'] match_scan_skip [of h c e args hsh]
    match_scan_chain [of h s xs hsh args]
  by blast

lemma erase_dom: "erase h' = erase h \<Longrightarrow> dom h' = dom h"
proof -
  assume "erase h' = erase h"
  then have "erase h' a = erase h a" for a by simp
  then have "(h' a = None) = (h a = None)" for a
    by (simp add: erase_def) (metis option.map_disc_iff)
  then show ?thesis by (auto simp: dom_def)
qed

lemma create_post_new:
  assumes "create_post new hsh args st st'"
  shows "\<exists>e'. heap st' new = Some e' \<and> hash e' = hsh \<and> length_f e' = length args \<and>
     payload e' = args \<and> refcnt e' = 1"
proof -
  let ?e = "new_entry hsh (strs (g_shards st ! SHARD_IDX hsh) !
             TABLE_IDX hsh (capacity (g_shards st ! SHARD_IDX hsh))) args"
  from assms have er: "erase (heap st') = erase ((heap st)(new \<mapsto> ?e))"
    by (simp add: create_post_def)
  have "((heap st)(new \<mapsto> ?e)) new = Some ?e" by simp
  from eraseD [OF er this] show ?thesis by (simp add: new_entry_eq)
qed

lemma create_post_old:
  assumes "create_post new hsh args st st'" "heap st new = None" "heap st a = Some e"
  shows "\<exists>e'. heap st' a = Some e' \<and> hash e' = hash e \<and> length_f e' = length_f e \<and>
     payload e' = payload e \<and> refcnt e' = refcnt e"
proof -
  let ?e = "new_entry hsh (strs (g_shards st ! SHARD_IDX hsh) !
             TABLE_IDX hsh (capacity (g_shards st ! SHARD_IDX hsh))) args"
  from assms(1) have er: "erase (heap st') = erase ((heap st)(new \<mapsto> ?e))"
    by (simp add: create_post_def)
  from assms(2,3) have "a \<noteq> new" by auto
  with assms(3) have "((heap st)(new \<mapsto> ?e)) a = Some e" by simp
  from eraseD [OF er this] show ?thesis .
qed

lemma create_post_dom:
  assumes "create_post new hsh args st st'"
  shows "dom (heap st') = insert new (dom (heap st))"
proof -
  from assms have "erase (heap st') = erase ((heap st)(new \<mapsto> new_entry hsh
      (strs (g_shards st ! SHARD_IDX hsh) !
         TABLE_IDX hsh (capacity (g_shards st ! SHARD_IDX hsh))) args))"
    by (simp add: create_post_def)
  from erase_dom [OF this] show ?thesis by simp
qed

lemma create_post_entries:
  assumes "create_post new hsh args st st'" "length (g_shards st) = SHARD_COUNT"
  shows "table_entries st' = insert new (table_entries st)"
proof -
  have si: "SHARD_IDX hsh < length (g_shards st)" using assms(2) SHARD_IDX_less by simp
  from assms(1) have len: "length (g_shards st') = length (g_shards st)"
    and ents: "\<forall>sj<length (g_shards st).
        shard_entries (heap st') (g_shards st' ! sj) =
          (if sj = SHARD_IDX hsh
           then insert new (shard_entries (heap st) (g_shards st ! sj))
           else shard_entries (heap st) (g_shards st ! sj))"
    by (simp_all add: create_post_def)
  have "table_entries st' =
      (\<Union>sj<length (g_shards st). if sj = SHARD_IDX hsh
           then insert new (shard_entries (heap st) (g_shards st ! sj))
           else shard_entries (heap st) (g_shards st ! sj))"
    using ents by (simp add: table_entries_def len)
  also have "\<dots> = insert new (table_entries st)"
    using si by (auto simp: table_entries_def split: if_splits)
  finally show ?thesis .
qed

lemma entry_bucket:
  assumes "shard_ok H seed h si sh" "a \<in> shard_entries h sh" "h a = Some e"
  shows "a \<in> reach h (strs sh ! TABLE_IDX (hash e) (capacity sh))"
proof -
  from shard_entry [OF assms(1,2)] assms(3) obtain i where
    "entry_ok H seed si (capacity sh) i e" "a \<in> reach h (strs sh ! i)" by auto
  with entry_okD(4) [OF this(1)] show ?thesis by simp
qed

lemma table_entries_shard:
  "si < length (g_shards st) \<Longrightarrow> shard_entries (heap st) (g_shards st ! si) \<subseteq> table_entries st"
  by (auto simp: table_entries_def)

text \<open>A creating call: what the new state is.\<close>

lemma FindOrCreate_create:
  assumes inv: "table_inv H st" and hsh: "hsh = H args (g_hash_seed st)"
    and new: "heap st new = None"
    and none: "\<forall>a\<in>table_entries st. live (heap st) a \<longrightarrow> content (heap st) a \<noteq> args"
  shows "\<exists>st' e'. FindOrCreateInternedSlice new hsh args st = Some (Inr (new, st')) \<and>
           table_inv H st' \<and> create_post new hsh args st st' \<and>
           table_entries st' = insert new (table_entries st) \<and>
           heap st' new = Some e' \<and> hash e' = hsh \<and> length_f e' = length args \<and>
           payload e' = args \<and> refcnt e' = 1 \<and>
           live (heap st') new \<and> content (heap st') new = args \<and>
           new \<in> reach (heap st')
             (strs (g_shards st' ! SHARD_IDX hsh) !
                TABLE_IDX hsh (capacity (g_shards st' ! SHARD_IDX hsh)))"
proof -
  from FindOrCreate_miss [OF inv hsh new none] obtain st' where
    r: "FindOrCreateInternedSlice new hsh args st = Some (Inr (new, st'))"
    and inv': "table_inv H st'" and post: "create_post new hsh args st st'"
    by blast
  from inv have len: "length (g_shards st) = SHARD_COUNT" by (simp add: table_inv_def)
  from create_post_entries [OF post len] have ents: "table_entries st' = insert new (table_entries st)" .
  from create_post_new [OF post] obtain e' where e': "heap st' new = Some e'" "hash e' = hsh"
    "length_f e' = length args" "payload e' = args" "refcnt e' = 1" by blast
  have lc: "live (heap st') new" "content (heap st') new = args"
    using e' by (simp_all add: live_def content_def InternedSlice_def)
  have si: "SHARD_IDX hsh < SHARD_COUNT" by (rule SHARD_IDX_less)
  from post len si have "new \<in> shard_entries (heap st') (g_shards st' ! SHARD_IDX hsh)"
    by (simp add: create_post_def)
  from entry_bucket [OF table_inv_shard [OF inv' si] this e'(1)] e'(2)
  have "new \<in> reach (heap st')
             (strs (g_shards st' ! SHARD_IDX hsh) !
                TABLE_IDX hsh (capacity (g_shards st' ! SHARD_IDX hsh)))" by simp
  with r inv' post ents e' lc show ?thesis by blast
qed

text \<open>A matching call: what the new state is.\<close>

lemma FindOrCreate_match:
  assumes inv: "table_inv H st" and hsh: "hsh = H args (g_hash_seed st)"
    and b: "b \<in> table_entries st" "live (heap st) b" "content (heap st) b = args"
  shows "\<exists>e. FindOrCreateInternedSlice new hsh args st =
             Some (Inr (b, st\<lparr>heap := (heap st)(b \<mapsto> e\<lparr>refcnt := refcnt e + 1\<rparr>)\<rparr>)) \<and>
           heap st b = Some e \<and>
           table_inv H (st\<lparr>heap := (heap st)(b \<mapsto> e\<lparr>refcnt := refcnt e + 1\<rparr>)\<rparr>) \<and>
           table_entries (st\<lparr>heap := (heap st)(b \<mapsto> e\<lparr>refcnt := refcnt e + 1\<rparr>)\<rparr>) =
             table_entries st"
proof -
  from b(2) obtain e where e: "heap st b = Some e"
    by (auto simp: live_def split: option.splits)
  then have r: "ref_entry (heap st) b = (heap st)(b \<mapsto> e\<lparr>refcnt := refcnt e + 1\<rparr>)"
    by (simp add: ref_entry_def)
  from FindOrCreate_hit [OF inv hsh b, of new] table_inv_ref [OF inv b(2)] e
  show ?thesis unfolding r by blast
qed

lemma live_content_upd:
  "h b = Some e \<Longrightarrow> refcnt e \<noteq> 0 \<Longrightarrow>
   live (h(b \<mapsto> e\<lparr>refcnt := refcnt e + 1\<rparr>)) a = live h a \<and>
   content (h(b \<mapsto> e\<lparr>refcnt := refcnt e + 1\<rparr>)) a = content h a"
  by (auto simp: live_def content_def InternedSlice_def)

text \<open>Every call returns a live entry of the table with the bytes asked for, and leaves a
  table that satisfies the invariant.\<close>

lemma FindOrCreate_total:
  assumes inv: "table_inv H st" and hsh: "hsh = H args (g_hash_seed st)"
    and new: "heap st new = None"
  shows "\<exists>a st'. FindOrCreateInternedSlice new hsh args st = Some (Inr (a, st')) \<and>
           table_inv H st' \<and> g_hash_seed st' = g_hash_seed st \<and>
           a \<in> table_entries st' \<and> live (heap st') a \<and> content (heap st') a = args \<and>
           dom (heap st') \<subseteq> insert new (dom (heap st))"
proof (cases "\<exists>b\<in>table_entries st. live (heap st) b \<and> content (heap st) b = args")
  case True
  then obtain b where b: "b \<in> table_entries st" "live (heap st) b" "content (heap st) b = args"
    by blast
  from FindOrCreate_match [OF inv hsh b, of new] obtain e where
    r: "FindOrCreateInternedSlice new hsh args st =
             Some (Inr (b, st\<lparr>heap := (heap st)(b \<mapsto> e\<lparr>refcnt := refcnt e + 1\<rparr>)\<rparr>))"
    and e: "heap st b = Some e"
    and inv': "table_inv H (st\<lparr>heap := (heap st)(b \<mapsto> e\<lparr>refcnt := refcnt e + 1\<rparr>)\<rparr>)"
    and ents: "table_entries (st\<lparr>heap := (heap st)(b \<mapsto> e\<lparr>refcnt := refcnt e + 1\<rparr>)\<rparr>) =
             table_entries st"
    by blast
  from b(2) e have "refcnt e \<noteq> 0" by (simp add: live_def)
  from live_content_upd [of "heap st" b e b, OF e this] b(2,3)
  have "live ((heap st)(b \<mapsto> e\<lparr>refcnt := refcnt e + 1\<rparr>)) b"
    "content ((heap st)(b \<mapsto> e\<lparr>refcnt := refcnt e + 1\<rparr>)) b = args" by simp_all
  moreover have "dom ((heap st)(b \<mapsto> e\<lparr>refcnt := refcnt e + 1\<rparr>)) \<subseteq> insert new (dom (heap st))"
    using e by auto
  ultimately show ?thesis using r inv' ents b(1)
    by (intro exI [where x = b] exI [where x = "st\<lparr>heap := (heap st)(b \<mapsto> e\<lparr>refcnt := refcnt e + 1\<rparr>)\<rparr>"])
       simp
next
  case False
  then have "\<forall>a\<in>table_entries st. live (heap st) a \<longrightarrow> content (heap st) a \<noteq> args" by blast
  from FindOrCreate_create [OF inv hsh new this] obtain st' where
    r: "FindOrCreateInternedSlice new hsh args st = Some (Inr (new, st'))"
    "table_inv H st'" "create_post new hsh args st st'"
    "table_entries st' = insert new (table_entries st)"
    "live (heap st') new" "content (heap st') new = args"
    by blast
  from r(3) have "g_hash_seed st' = g_hash_seed st" by (simp add: create_post_def)
  moreover from create_post_dom [OF r(3)] have "dom (heap st') \<subseteq> insert new (dom (heap st))"
    by simp
  ultimately show ?thesis using r by blast
qed

text \<open>
  C1. After init (the table satisfies \<open>table_inv\<close>, which init establishes and every
  operation keeps), for every byte sequence \<open>args\<close> with its hash \<open>hsh\<close> and every fresh
  address \<open>new\<close> that \<^verbatim>\<open>gpr_malloc\<close> may return, the intern operation returns an entry
  of the table whose bytes are \<open>args\<close>. If a live entry with these bytes is in the table,
  it is the one returned, its refcount is one higher and nothing else changes (no entry is
  allocated). Otherwise the entry returned is the new one, with refcount 1, the bytes of
  \<open>args\<close>, linked into the bucket its hash selects. Interning the same bytes again
  returns the same entry.
\<close>

theorem intern_find_or_create:
  assumes inv: "table_inv H st" and hsh: "hsh = H args (g_hash_seed st)"
    and new: "heap st new = None"
  shows "\<exists>a st'. FindOrCreateInternedSlice new hsh args st = Some (Inr (a, st')) \<and>
     table_inv H st' \<and> a \<in> table_entries st' \<and> content (heap st') a = args \<and>
     (\<forall>b\<in>table_entries st. live (heap st) b \<and> content (heap st) b = args \<longrightarrow>
        a = b \<and> dom (heap st') = dom (heap st) \<and>
        (\<exists>e. heap st b = Some e \<and>
           st' = st\<lparr>heap := (heap st)(b \<mapsto> e\<lparr>refcnt := refcnt e + 1\<rparr>)\<rparr>)) \<and>
     ((\<forall>b\<in>table_entries st. \<not> (live (heap st) b \<and> content (heap st) b = args)) \<longrightarrow>
        a = new \<and>
        (\<exists>e. heap st' new = Some e \<and> refcnt e = 1 \<and> payload e = args \<and>
           length_f e = length args \<and> hash e = hsh) \<and>
        dom (heap st') = insert new (dom (heap st)) \<and>
        table_entries st' = insert new (table_entries st) \<and>
        new \<in> reach (heap st')
          (strs (g_shards st' ! SHARD_IDX hsh) !
             TABLE_IDX hsh (capacity (g_shards st' ! SHARD_IDX hsh)))) \<and>
     (\<forall>new2. \<exists>st''. FindOrCreateInternedSlice new2 hsh args st' = Some (Inr (a, st'')))"
proof -
  from FindOrCreate_total [OF inv hsh new] obtain a st' where
    r: "FindOrCreateInternedSlice new hsh args st = Some (Inr (a, st'))"
    and inv': "table_inv H st'" and seed: "g_hash_seed st' = g_hash_seed st"
    and a: "a \<in> table_entries st'" "live (heap st') a" "content (heap st') a = args"
    by blast
  have hit: "a = b \<and> dom (heap st') = dom (heap st) \<and>
        (\<exists>e. heap st b = Some e \<and>
           st' = st\<lparr>heap := (heap st)(b \<mapsto> e\<lparr>refcnt := refcnt e + 1\<rparr>)\<rparr>)"
    if b: "b \<in> table_entries st" "live (heap st) b \<and> content (heap st) b = args" for b
  proof -
    from b(2) have "live (heap st) b" "content (heap st) b = args" by simp_all
    from FindOrCreate_match [OF inv hsh b(1) this, of new] r obtain e where
      e: "heap st b = Some e" "a = b"
      "st' = st\<lparr>heap := (heap st)(b \<mapsto> e\<lparr>refcnt := refcnt e + 1\<rparr>)\<rparr>"
      by auto
    from e(1,3) have "dom (heap st') = dom (heap st)" by auto
    with e show ?thesis by blast
  qed
  have miss: "a = new \<and>
        (\<exists>e. heap st' new = Some e \<and> refcnt e = 1 \<and> payload e = args \<and>
           length_f e = length args \<and> hash e = hsh) \<and>
        dom (heap st') = insert new (dom (heap st)) \<and>
        table_entries st' = insert new (table_entries st) \<and>
        new \<in> reach (heap st')
          (strs (g_shards st' ! SHARD_IDX hsh) !
             TABLE_IDX hsh (capacity (g_shards st' ! SHARD_IDX hsh)))"
    if "\<forall>b\<in>table_entries st. \<not> (live (heap st) b \<and> content (heap st) b = args)"
  proof -
    from that have "\<forall>a\<in>table_entries st. live (heap st) a \<longrightarrow> content (heap st) a \<noteq> args"
      by blast
    from FindOrCreate_create [OF inv hsh new this] r obtain e' where
      c: "a = new" "create_post new hsh args st st'"
      "table_entries st' = insert new (table_entries st)"
      "heap st' new = Some e'" "hash e' = hsh" "length_f e' = length args"
      "payload e' = args" "refcnt e' = 1"
      "new \<in> reach (heap st')
             (strs (g_shards st' ! SHARD_IDX hsh) !
                TABLE_IDX hsh (capacity (g_shards st' ! SHARD_IDX hsh)))"
      by auto
    from create_post_dom [OF c(2)] c show ?thesis by blast
  qed
  have again: "\<exists>st''. FindOrCreateInternedSlice new2 hsh args st' = Some (Inr (a, st''))" for new2
  proof -
    from hsh seed have "hsh = H args (g_hash_seed st')" by simp
    from FindOrCreate_match [OF inv' this a, of new2] show ?thesis by blast
  qed
  from r inv' a(1,3) hit miss again show ?thesis by blast
qed

lemmas eval_defs = run.simps step.simps ManagedMemorySlice_def FindOrCreateInternedSlice_def
  MatchInternedSliceLocked_def InternNewStringLocked_def grow_shard_def
  InternedSliceRefcount_dtor_def grpc_slice_intern_shutdown_def
  grpc_slice_intern_init_def grpc_test_only_set_slice_hash_seed_def process_start_def
  SHARD_IDX_def TABLE_IDX_def SHARD_COUNT_def LOG2_SHARD_COUNT_def INITIAL_SHARD_CAPACITY_def
  InternedSlice_def IncrementIfNonzero_def new_InternedSliceRefcount_def H0_def dump0_def Let_def
  match_scan.simps unlink_scan.simps grow_chain.simps dump_chain.simps SIZE_MAX_def

theorem intern_find_or_create_witness:
  "table_inv H0 (grpc_slice_intern_init 0 process_start) \<and>
   heap (grpc_slice_intern_init 0 process_start) 0 = None \<and>
   (\<exists>st'. FindOrCreateInternedSlice 0 (H0 [97] (g_hash_seed (grpc_slice_intern_init 0 process_start)))
            [97] (grpc_slice_intern_init 0 process_start) = Some (Inr (0, st')) \<and>
      table_inv H0 st' \<and> content (heap st') 0 = [97] \<and>
      (\<exists>st''. FindOrCreateInternedSlice 1 (H0 [97] (g_hash_seed (grpc_slice_intern_init 0 process_start)))
            [97] st' = Some (Inr (0, st''))))"
proof -
  let ?st = "grpc_slice_intern_init 0 process_start"
  have inv: "table_inv H0 ?st" by (rule table_inv_init)
  have new: "heap ?st 0 = None" by (simp add: eval_defs)
  from intern_find_or_create [OF inv refl new, of "[97]"] obtain a st' where
    r: "FindOrCreateInternedSlice 0 (H0 [97] (g_hash_seed ?st)) [97] ?st = Some (Inr (a, st'))"
    "table_inv H0 st'" "content (heap st') a = [97]"
    "\<forall>new2. \<exists>st''. FindOrCreateInternedSlice new2 (H0 [97] (g_hash_seed ?st)) [97] st' =
        Some (Inr (a, st''))"
    by blast
  have "\<exists>x. FindOrCreateInternedSlice 0 (H0 [97] (g_hash_seed ?st)) [97] ?st = Some (Inr (0, x))"
    by (simp add: eval_defs)
  with r(1) have "a = 0" by auto
  with r inv new show ?thesis by blast
qed

theorem forced_seed_kept_witness:
  "\<exists>st'. run H0 dump0 [Call_init 7, Call_intern 0 [97], Call_init 9]
      (grpc_test_only_set_slice_hash_seed 42 (grpc_slice_intern_init 5 process_start)) = Some st' \<and>
     g_forced_hash_seed st' \<and> g_hash_seed st' = 42"
proof -
  let ?cs = "[Call_init 7, Call_intern 0 [97], Call_init 9]"
  let ?st = "grpc_test_only_set_slice_hash_seed 42 (grpc_slice_intern_init 5 process_start)"
  have "\<exists>st'. run H0 dump0 ?cs ?st = Some st'"
    by (simp add: eval_defs)
  then obtain st' where r: "run H0 dump0 ?cs ?st = Some st'" ..
  from forced_seed_kept [of 42 "grpc_slice_intern_init 5 process_start" H0 dump0] r
  have "g_forced_hash_seed st' \<and> g_hash_seed st' = forced_seed 42 ?cs" by blast
  with r show ?thesis by auto
qed

theorem match_needs_hash_and_content_witness:
  "run H0 dump0 [Call_init 0, Call_intern 0 [97], Call_intern 1 [98]] process_start =
     Some collide_state \<and>
   chain collide_heap (Some 1) [1, 0] \<and>
   collide_heap 1 = Some \<lparr>length_f = 1, refcnt = 1, hash = 1, bucket_next = Some 0, payload = [98]\<rparr> \<and>
   match_scan 1 [97] (Some 1) collide_heap = match_scan 1 [97] (Some 0) collide_heap \<and>
   match_scan 1 [97] (Some 1) collide_heap = Some (Inr (Some 0, ref_entry collide_heap 0)) \<and>
   MatchInternedSliceLocked 1 0 [97] collide_state =
     Some (Inr (Some 0, collide_state\<lparr>heap := ref_entry collide_heap 0\<rparr>)) \<and>
   (\<exists>e. heap collide_state 0 = Some e \<and> hash e = 1 \<and> InternedSlice e = [97])"
proof -
  let ?e1 = "\<lparr>length_f = 1, refcnt = 1, hash = 1, bucket_next = Some 0, payload = [98]\<rparr>"
  have run: "run H0 dump0 [Call_init 0, Call_intern 0 [97], Call_intern 1 [98]] process_start =
     Some collide_state"
    by (simp add: eval_defs collide_state_def collide_heap_def map_replicate_const fun_upd_twist)
       (simp add: numeral_2_eq_2)
  have ch: "chain collide_heap (Some 1) [1, 0]"
    by (simp add: collide_heap_def)
  have e1: "collide_heap 1 = Some ?e1 \<and> hash ?e1 = 1 \<and> InternedSlice ?e1 \<noteq> [97]"
    by (simp add: collide_heap_def InternedSlice_def)
  have m: "MatchInternedSliceLocked 1 0 [97] collide_state =
     Some (Inr (Some 0, collide_state\<lparr>heap := ref_entry collide_heap 0\<rparr>))"
    by (simp add: eval_defs collide_state_def collide_heap_def ref_entry_def)
  note inst = match_needs_hash_and_content [of 1 0 "[97]" collide_state 0
      "collide_state\<lparr>heap := ref_entry collide_heap 0\<rparr>" collide_heap 1 ?e1 "Some 1" "[1, 0]"]
  from inst e1 have skip: "match_scan 1 [97] (Some 1) collide_heap = match_scan 1 [97] (Some 0) collide_heap"
    by simp
  from inst ch have "match_scan 1 [97] (Some 1) collide_heap =
      Some (Inr (case find (matches 1 [97] collide_heap) [1, 0] of
                     None \<Rightarrow> (None, collide_heap)
                   | Some b \<Rightarrow> (Some b, ref_entry collide_heap b)))"
    by blast
  moreover have "find (matches 1 [97] collide_heap) [1, 0] = Some 0"
    by (simp add: matches_def collide_heap_def InternedSlice_def)
  ultimately have scan: "match_scan 1 [97] (Some 1) collide_heap =
      Some (Inr (Some 0, ref_entry collide_heap 0))" by simp
  from inst m have "\<exists>e. heap collide_state 0 = Some e \<and> hash e = 1 \<and> InternedSlice e = [97]"
    by blast
  with run ch e1 skip scan m show ?thesis by blast
qed

lemma dtor_capacity:
  assumes "InternedSliceRefcount_dtor this st = Some (Inr st')"
  shows "length (g_shards st') = length (g_shards st) \<and>
         capacity (g_shards st' ! sj) = capacity (g_shards st ! sj)"
proof -
  have upd: "capacity (xs[i := x] ! sj) = capacity (xs ! sj)"
    if "capacity x = capacity (xs ! i)" for xs :: "slice_shard list" and i x
    using that by (cases "i < length xs"; cases "sj = i") (simp_all add: list_update_beyond)
  from assms show ?thesis
    unfolding InternedSliceRefcount_dtor_def
    by (auto simp: Let_def upd split: if_splits option.splits sum.splits slot.splits)
qed

lemma FindOrCreate_capacity:
  assumes inv: "table_inv H st" and hsh: "hsh = H args (g_hash_seed st)"
    and new: "heap st new = None"
    and r: "FindOrCreateInternedSlice new hsh args st = Some (Inr (a, st'))"
  shows "capacity (g_shards st' ! sj) = capacity (g_shards st ! sj) \<or>
         capacity (g_shards st' ! sj) = 2 * capacity (g_shards st ! sj)"
proof (cases "\<exists>b\<in>table_entries st. live (heap st) b \<and> content (heap st) b = args")
  case True
  then obtain b where b: "b \<in> table_entries st" "live (heap st) b" "content (heap st) b = args"
    by blast
  from FindOrCreate_match [OF inv hsh b, of new] r show ?thesis by auto
next
  case False
  then have "\<forall>a\<in>table_entries st. live (heap st) a \<longrightarrow> content (heap st) a \<noteq> args" by blast
  from FindOrCreate_create [OF inv hsh new this] r
  have post: "create_post new hsh args st st'" by auto
  show ?thesis
  proof (cases "sj = SHARD_IDX hsh")
    case True
    with post show ?thesis by (auto simp: create_post_def split: if_splits)
  next
    case False
    with post show ?thesis by (simp add: create_post_def)
  qed
qed

lemma entry_bucket_only:
  assumes ok: "shard_ok H seed h si sh" and a: "a \<in> shard_entries h sh" and e: "h a = Some e"
    and j: "j < length (strs sh)"
  shows "a \<in> reach h (strs sh ! j) \<longleftrightarrow> j = unat (drop_bit 5 (hash e)) mod capacity sh"
proof
  assume m: "a \<in> reach h (strs sh ! j)"
  from ok j have "j < capacity sh" by (simp add: shard_ok_def)
  from shard_bucket [OF ok this] obtain xs where xs: "reach h (strs sh ! j) = set xs"
    "\<forall>a\<in>set xs. \<exists>e. h a = Some e \<and> entry_ok H seed si (capacity sh) j e" by blast
  from m xs e have "entry_ok H seed si (capacity sh) j e" by auto
  from entry_okD(4) [OF this] show "j = unat (drop_bit 5 (hash e)) mod capacity sh"
    by (simp add: TABLE_IDX_def LOG2_SHARD_COUNT_def)
next
  assume "j = unat (drop_bit 5 (hash e)) mod capacity sh"
  with entry_bucket [OF ok a e] show "a \<in> reach h (strs sh ! j)"
    by (simp add: TABLE_IDX_def LOG2_SHARD_COUNT_def)
qed

text \<open>
  C3. In a creating intern call (no live entry with the bytes is in the table), when the
  count of the shard, once incremented, is strictly above twice its capacity, the shard
  leaves the call with exactly twice the capacity and a bucket array of that length, and
  every entry of the shard, the new one included, is in the chain of bucket
  \<open>(hash >> 5) mod (2 * capacity)\<close> of the new array; otherwise the capacity is unchanged.
  In either case the entries of the resulting shard are those it had and the new one, each
  is in the chain of bucket \<open>(hash >> 5) mod capacity\<close> for the resulting capacity and of no
  other bucket; the new entry has the hash and the bytes of the call and refcount 1; every
  entry that existed keeps its address, bytes, length, hash and refcount; and every entry
  that was live in the table is still found by its bytes. No call makes a capacity smaller:
  an intern call leaves each capacity as it was or doubles it, the destructor leaves it as
  it was.
\<close>

theorem grow_on_threshold:
  assumes inv: "table_inv H st" and hsh: "hsh = H args (g_hash_seed st)"
    and new: "heap st new = None"
  shows "((\<forall>b\<in>table_entries st. \<not> (live (heap st) b \<and> content (heap st) b = args)) \<longrightarrow>
      (\<exists>st'. FindOrCreateInternedSlice new hsh args st = Some (Inr (new, st')) \<and>
         (capacity (g_shards st ! SHARD_IDX hsh) * 2 < count (g_shards st ! SHARD_IDX hsh) + 1 \<longrightarrow>
            capacity (g_shards st' ! SHARD_IDX hsh) = 2 * capacity (g_shards st ! SHARD_IDX hsh) \<and>
            length (strs (g_shards st' ! SHARD_IDX hsh)) = 2 * capacity (g_shards st ! SHARD_IDX hsh) \<and>
            (\<forall>a\<in>insert new (shard_entries (heap st) (g_shards st ! SHARD_IDX hsh)).
               \<exists>e. heap st' a = Some e \<and>
                 a \<in> reach (heap st')
                   (strs (g_shards st' ! SHARD_IDX hsh) !
                      (unat (drop_bit 5 (hash e)) mod
                         (2 * capacity (g_shards st ! SHARD_IDX hsh)))))) \<and>
         (\<not> capacity (g_shards st ! SHARD_IDX hsh) * 2 < count (g_shards st ! SHARD_IDX hsh) + 1 \<longrightarrow>
            capacity (g_shards st' ! SHARD_IDX hsh) = capacity (g_shards st ! SHARD_IDX hsh)) \<and>
         shard_entries (heap st') (g_shards st' ! SHARD_IDX hsh) =
           insert new (shard_entries (heap st) (g_shards st ! SHARD_IDX hsh)) \<and>
         (\<forall>a\<in>shard_entries (heap st') (g_shards st' ! SHARD_IDX hsh).
            \<exists>e. heap st' a = Some e \<and>
              (\<forall>j<length (strs (g_shards st' ! SHARD_IDX hsh)).
                 a \<in> reach (heap st') (strs (g_shards st' ! SHARD_IDX hsh) ! j) \<longleftrightarrow>
                 j = unat (drop_bit 5 (hash e)) mod capacity (g_shards st' ! SHARD_IDX hsh))) \<and>
         (\<forall>a e. heap st a = Some e \<longrightarrow>
            (\<exists>e'. heap st' a = Some e' \<and> payload e' = payload e \<and> length_f e' = length_f e \<and>
               hash e' = hash e \<and> refcnt e' = refcnt e)) \<and>
         dom (heap st') = insert new (dom (heap st)) \<and>
         (\<exists>e. heap st' new = Some e \<and> hash e = hsh \<and> payload e = args \<and>
            length_f e = length args \<and> refcnt e = 1) \<and>
         (\<forall>b\<in>table_entries st. live (heap st) b \<longrightarrow>
            (\<forall>new2. \<exists>st''.
               FindOrCreateInternedSlice new2 (H (content (heap st) b) (g_hash_seed st'))
                 (content (heap st) b) st' = Some (Inr (b, st'')))))) \<and>
     (\<forall>a st' sj. FindOrCreateInternedSlice new hsh args st = Some (Inr (a, st')) \<longrightarrow>
        capacity (g_shards st' ! sj) = capacity (g_shards st ! sj) \<or>
        capacity (g_shards st' ! sj) = 2 * capacity (g_shards st ! sj)) \<and>
     (\<forall>this st' sj. InternedSliceRefcount_dtor this st = Some (Inr st') \<longrightarrow>
        capacity (g_shards st' ! sj) = capacity (g_shards st ! sj))"
proof -
  let ?si = "SHARD_IDX hsh"
  let ?sh = "g_shards st ! ?si"
  have si: "?si < SHARD_COUNT" by (rule SHARD_IDX_less)
  from inv have len: "length (g_shards st) = SHARD_COUNT" by (simp add: table_inv_def)
  have create: "\<exists>st'. FindOrCreateInternedSlice new hsh args st = Some (Inr (new, st')) \<and>
         (capacity ?sh * 2 < count ?sh + 1 \<longrightarrow>
            capacity (g_shards st' ! ?si) = 2 * capacity ?sh \<and>
            length (strs (g_shards st' ! ?si)) = 2 * capacity ?sh \<and>
            (\<forall>a\<in>insert new (shard_entries (heap st) ?sh).
               \<exists>e. heap st' a = Some e \<and>
                 a \<in> reach (heap st')
                   (strs (g_shards st' ! ?si) ! (unat (drop_bit 5 (hash e)) mod (2 * capacity ?sh))))) \<and>
         (\<not> capacity ?sh * 2 < count ?sh + 1 \<longrightarrow>
            capacity (g_shards st' ! ?si) = capacity ?sh) \<and>
         shard_entries (heap st') (g_shards st' ! ?si) = insert new (shard_entries (heap st) ?sh) \<and>
         (\<forall>a\<in>shard_entries (heap st') (g_shards st' ! ?si).
            \<exists>e. heap st' a = Some e \<and>
              (\<forall>j<length (strs (g_shards st' ! ?si)).
                 a \<in> reach (heap st') (strs (g_shards st' ! ?si) ! j) \<longleftrightarrow>
                 j = unat (drop_bit 5 (hash e)) mod capacity (g_shards st' ! ?si))) \<and>
         (\<forall>a e. heap st a = Some e \<longrightarrow>
            (\<exists>e'. heap st' a = Some e' \<and> payload e' = payload e \<and> length_f e' = length_f e \<and>
               hash e' = hash e \<and> refcnt e' = refcnt e)) \<and>
         dom (heap st') = insert new (dom (heap st)) \<and>
         (\<exists>e. heap st' new = Some e \<and> hash e = hsh \<and> payload e = args \<and>
            length_f e = length args \<and> refcnt e = 1) \<and>
         (\<forall>b\<in>table_entries st. live (heap st) b \<longrightarrow>
            (\<forall>new2. \<exists>st''.
               FindOrCreateInternedSlice new2 (H (content (heap st) b) (g_hash_seed st'))
                 (content (heap st) b) st' = Some (Inr (b, st''))))"
    if none: "\<forall>b\<in>table_entries st. \<not> (live (heap st) b \<and> content (heap st) b = args)"
  proof -
    from none have "\<forall>a\<in>table_entries st. live (heap st) a \<longrightarrow> content (heap st) a \<noteq> args"
      by blast
    from FindOrCreate_create [OF inv hsh new this] obtain st' where
      r: "FindOrCreateInternedSlice new hsh args st = Some (Inr (new, st'))"
      and inv': "table_inv H st'" and post: "create_post new hsh args st st'"
      and ents: "table_entries st' = insert new (table_entries st)"
      by blast
    let ?sh' = "g_shards st' ! ?si"
    have ok': "shard_ok H (g_hash_seed st') (heap st') ?si ?sh'"
      using inv' si by (rule table_inv_shard)
    from post have cap: "capacity ?sh' =
       (if capacity ?sh * 2 < count ?sh + 1 then 2 * capacity ?sh else capacity ?sh)"
      by (simp add: create_post_def)
    from ok' have lens: "length (strs ?sh') = capacity ?sh'" by (simp add: shard_ok_def)
    from post si len have E: "shard_entries (heap st') ?sh' = insert new (shard_entries (heap st) ?sh)"
      by (simp add: create_post_def)
    have bucket: "\<exists>e. heap st' a = Some e \<and>
        a \<in> reach (heap st') (strs ?sh' ! (unat (drop_bit 5 (hash e)) mod capacity ?sh'))"
      if a: "a \<in> shard_entries (heap st') ?sh'" for a
    proof -
      from shard_entry [OF ok' a] obtain e where e: "heap st' a = Some e" by blast
      from entry_bucket [OF ok' a e] e show ?thesis
        by (auto simp: TABLE_IDX_def LOG2_SHARD_COUNT_def)
    qed
    have only: "\<exists>e. heap st' a = Some e \<and>
        (\<forall>j<length (strs ?sh'). a \<in> reach (heap st') (strs ?sh' ! j) \<longleftrightarrow>
           j = unat (drop_bit 5 (hash e)) mod capacity ?sh')"
      if a: "a \<in> shard_entries (heap st') ?sh'" for a
    proof -
      from shard_entry [OF ok' a] obtain e where e: "heap st' a = Some e" by blast
      from entry_bucket_only [OF ok' a e] e show ?thesis by blast
    qed
    have grown: "\<forall>a\<in>insert new (shard_entries (heap st) ?sh).
        \<exists>e. heap st' a = Some e \<and>
          a \<in> reach (heap st') (strs ?sh' ! (unat (drop_bit 5 (hash e)) mod (2 * capacity ?sh)))"
      if g: "capacity ?sh * 2 < count ?sh + 1"
    proof
      fix a assume "a \<in> insert new (shard_entries (heap st) ?sh)"
      with E have "a \<in> shard_entries (heap st') ?sh'" by simp
      from bucket [OF this] cap g show "\<exists>e. heap st' a = Some e \<and>
          a \<in> reach (heap st') (strs ?sh' ! (unat (drop_bit 5 (hash e)) mod (2 * capacity ?sh)))"
        by simp
    qed
    have old: "\<exists>e'. heap st' a = Some e' \<and> payload e' = payload e \<and> length_f e' = length_f e \<and>
               hash e' = hash e \<and> refcnt e' = refcnt e" if "heap st a = Some e" for a e
      using create_post_old [OF post new that] by blast
    have found: "\<exists>st''. FindOrCreateInternedSlice new2 (H (content (heap st) b) (g_hash_seed st'))
                 (content (heap st) b) st' = Some (Inr (b, st''))"
      if b: "b \<in> table_entries st" "live (heap st) b" for b new2
    proof -
      from b(2) obtain e where e: "heap st b = Some e" "refcnt e \<noteq> 0"
        by (auto simp: live_def split: option.splits)
      from old [OF e(1)] obtain e' where e': "heap st' b = Some e'" "payload e' = payload e"
        "length_f e' = length_f e" "refcnt e' = refcnt e" by blast
      have l: "live (heap st') b" using e' e(2) by (simp add: live_def)
      have c: "content (heap st') b = content (heap st) b"
        using e e' by (simp add: content_def InternedSlice_def)
      from b(1) ents have m: "b \<in> table_entries st'" by simp
      from FindOrCreate_match [OF inv' refl m l c, of new2] show ?thesis by blast
    qed
    have c1: "capacity ?sh * 2 < count ?sh + 1 \<longrightarrow>
            capacity ?sh' = 2 * capacity ?sh \<and> length (strs ?sh') = 2 * capacity ?sh \<and>
            (\<forall>a\<in>insert new (shard_entries (heap st) ?sh).
               \<exists>e. heap st' a = Some e \<and>
                 a \<in> reach (heap st')
                   (strs ?sh' ! (unat (drop_bit 5 (hash e)) mod (2 * capacity ?sh))))"
      using cap lens grown by simp
    have c2: "\<not> capacity ?sh * 2 < count ?sh + 1 \<longrightarrow> capacity ?sh' = capacity ?sh"
      using cap by simp
    have c3: "\<forall>a\<in>shard_entries (heap st') ?sh'.
            \<exists>e. heap st' a = Some e \<and>
              (\<forall>j<length (strs ?sh').
                 a \<in> reach (heap st') (strs ?sh' ! j) \<longleftrightarrow>
                 j = unat (drop_bit 5 (hash e)) mod capacity ?sh')"
      using only by blast
    have c4: "\<forall>a e. heap st a = Some e \<longrightarrow>
            (\<exists>e'. heap st' a = Some e' \<and> payload e' = payload e \<and> length_f e' = length_f e \<and>
               hash e' = hash e \<and> refcnt e' = refcnt e)"
      using old by blast
    have c5: "\<forall>b\<in>table_entries st. live (heap st) b \<longrightarrow>
            (\<forall>new2. \<exists>st''.
               FindOrCreateInternedSlice new2 (H (content (heap st) b) (g_hash_seed st'))
                 (content (heap st) b) st' = Some (Inr (b, st'')))"
      using found by blast
    have c6: "\<exists>e. heap st' new = Some e \<and> hash e = hsh \<and> payload e = args \<and>
            length_f e = length args \<and> refcnt e = 1"
      using create_post_new [OF post] by blast
    show ?thesis
      by (intro exI [where x = st'] conjI r c1 c2 E c3 c4 create_post_dom [OF post] c6 c5)
  qed
  have cap_foc: "capacity (g_shards st' ! sj) = capacity (g_shards st ! sj) \<or>
        capacity (g_shards st' ! sj) = 2 * capacity (g_shards st ! sj)"
    if "FindOrCreateInternedSlice new hsh args st = Some (Inr (a, st'))" for a st' sj
    using FindOrCreate_capacity [OF inv hsh new that] .
  have cap_dtor: "capacity (g_shards st' ! sj) = capacity (g_shards st ! sj)"
    if "InternedSliceRefcount_dtor this st = Some (Inr st')" for this st' sj
    using dtor_capacity [OF that] by blast
  from create cap_foc cap_dtor show ?thesis by blast
qed

lemma fresh_interns_mono: "fresh_interns D cs \<Longrightarrow> D' \<subseteq> D \<Longrightarrow> fresh_interns D' cs"
proof (induction D cs arbitrary: D' rule: fresh_interns.induct)
  case (2 D new buf cs)
  from "2.prems" have "new \<notin> D'" "fresh_interns (insert new D) cs" "insert new D' \<subseteq> insert new D"
    by auto
  with "2.IH" show ?case by simp
qed simp_all

lemma run_interns:
  "table_inv H st \<Longrightarrow> fresh_interns (dom (heap st)) cs \<Longrightarrow>
   \<exists>st'. run H dump cs st = Some st' \<and> table_inv H st'"
proof (induction cs arbitrary: st)
  case Nil
  then show ?case by simp
next
  case (Cons c cs)
  from Cons.prems(2) obtain new buf where c: "c = Call_intern new buf"
    by (cases c) simp_all
  with Cons.prems(2) have new: "heap st new = None"
    and fr: "fresh_interns (insert new (dom (heap st))) cs" by auto
  from FindOrCreate_total [OF Cons.prems(1) refl new, of buf] obtain a st1 where
    r: "FindOrCreateInternedSlice new (H buf (g_hash_seed st)) buf st = Some (Inr (a, st1))"
    and inv1: "table_inv H st1" and d: "dom (heap st1) \<subseteq> insert new (dom (heap st))"
    by blast
  from fresh_interns_mono [OF fr d] have "fresh_interns (dom (heap st1)) cs" .
  from Cons.IH [OF inv1 this] obtain st' where "run H dump cs st1 = Some st'" "table_inv H st'"
    by blast
  with r c show ?case by (simp add: ManagedMemorySlice_def)
qed

lemma no_entry_with:
  assumes inv: "table_inv H st"
    and none: "\<forall>a e. heap st a = Some e \<longrightarrow> InternedSlice e \<noteq> args"
  shows "\<forall>b\<in>table_entries st. \<not> (live (heap st) b \<and> content (heap st) b = args)"
proof
  fix b assume "b \<in> table_entries st"
  from table_entry [OF inv this] obtain e where e: "heap st b = Some e" by blast
  with none have "InternedSlice e \<noteq> args" by blast
  with e show "\<not> (live (heap st) b \<and> content (heap st) b = args)"
    by (simp add: content_def)
qed

theorem grow_on_threshold_witness:
  "\<exists>st. run H32 dump0 cs16 (grpc_slice_intern_init 0 process_start) = Some st \<and>
     table_inv H32 st \<and> heap st 16 = None \<and>
     (\<forall>b\<in>table_entries st. \<not> (live (heap st) b \<and> content (heap st) b = [17])) \<and>
     capacity (g_shards st ! 0) = 8 \<and> count (g_shards st ! 0) = 16 \<and>
     chain (heap st) (strs (g_shards st ! 0) ! 1) [8, 0] \<and>
     (\<exists>st'. FindOrCreateInternedSlice 16 (H32 [17] (g_hash_seed st)) [17] st = Some (Inr (16, st')) \<and>
        capacity (g_shards st' ! 0) = 16 \<and> length (strs (g_shards st' ! 0)) = 16 \<and>
        8 \<in> reach (heap st') (strs (g_shards st' ! 0) ! 9) \<and>
        8 \<notin> reach (heap st') (strs (g_shards st' ! 0) ! 1) \<and>
        0 \<in> reach (heap st') (strs (g_shards st' ! 0) ! 1) \<and>
        16 \<in> reach (heap st') (strs (g_shards st' ! 0) ! 1) \<and>
        dom (heap st') = insert 16 (dom (heap st)))"
proof -
  let ?st0 = "grpc_slice_intern_init 0 process_start"
  have "fresh_interns (dom (heap ?st0)) cs16"
    by (simp add: cs16_def grpc_slice_intern_init_def process_start_def)
  from run_interns [OF table_inv_init this, of H32 dump0] obtain st where
    st: "run H32 dump0 cs16 ?st0 = Some st" and inv: "table_inv H32 st" by blast
  have "\<exists>X. run H32 dump0 cs16 ?st0 = Some X \<and> heap X 16 = None \<and>
     count (g_shards X ! 0) = 16 \<and> capacity (g_shards X ! 0) = 8 \<and>
     length (strs (g_shards X ! 0)) = 8 \<and>
     chain (heap X) (strs (g_shards X ! 0) ! 1) [8, 0] \<and>
     (\<exists>e. heap X 8 = Some e \<and> hash e = 288) \<and> (\<exists>e. heap X 0 = Some e \<and> hash e = 32) \<and>
     (\<forall>a e. heap X a = Some e \<longrightarrow> InternedSlice e \<noteq> [17])"
    by (simp add: eval_defs H32_def cs16_def)
  with st have ev: "heap st 16 = None" "count (g_shards st ! 0) = 16" "capacity (g_shards st ! 0) = 8"
    "\<forall>a e. heap st a = Some e \<longrightarrow> InternedSlice e \<noteq> [17]"
    and ln: "length (strs (g_shards st ! 0)) = 8"
    and ch: "chain (heap st) (strs (g_shards st ! 0) ! 1) [8, 0]"
    and h8: "\<exists>e. heap st 8 = Some e \<and> hash e = 288"
    and h0: "\<exists>e. heap st 0 = Some e \<and> hash e = 32"
    by auto
  from no_entry_with [OF inv ev(4)]
  have none: "\<forall>b\<in>table_entries st. \<not> (live (heap st) b \<and> content (heap st) b = [17])" .
  have si: "SHARD_IDX (H32 [17] (g_hash_seed st)) = 0"
    by (simp add: H32_def SHARD_IDX_def LOG2_SHARD_COUNT_def)
  have h16: "H32 [17] (g_hash_seed st) = 544" by (simp add: H32_def)
  from reach_chain [OF ch] ln have mem: "8 \<in> shard_entries (heap st) (g_shards st ! 0)"
    "0 \<in> shard_entries (heap st) (g_shards st ! 0)"
    by (auto simp: shard_entries_def intro!: bexI [where x = 1])
  from grow_on_threshold [OF inv refl ev(1), of "[17]"] none ev(2,3)
  obtain st' where r: "FindOrCreateInternedSlice 16 (H32 [17] (g_hash_seed st)) [17] st = Some (Inr (16, st'))"
    and cap: "capacity (g_shards st' ! 0) = 16" "length (strs (g_shards st' ! 0)) = 16"
    and bk: "\<forall>a\<in>shard_entries (heap st') (g_shards st' ! 0).
            \<exists>e. heap st' a = Some e \<and>
              (\<forall>j<length (strs (g_shards st' ! 0)).
                 a \<in> reach (heap st') (strs (g_shards st' ! 0) ! j) \<longleftrightarrow>
                 j = unat (drop_bit 5 (hash e)) mod capacity (g_shards st' ! 0))"
    and E: "shard_entries (heap st') (g_shards st' ! 0) = insert 16 (shard_entries (heap st) (g_shards st ! 0))"
    and old: "\<forall>a e. heap st a = Some e \<longrightarrow>
            (\<exists>e'. heap st' a = Some e' \<and> payload e' = payload e \<and> length_f e' = length_f e \<and>
               hash e' = hash e \<and> refcnt e' = refcnt e)"
    and d: "dom (heap st') = insert 16 (dom (heap st))"
    and e16: "\<exists>e. heap st' 16 = Some e \<and> hash e = H32 [17] (g_hash_seed st)"
    unfolding si by auto
  from h8 old obtain e8 where e8: "heap st' 8 = Some e8" "hash e8 = 288" by fastforce
  from h0 old obtain e0 where e0: "heap st' 0 = Some e0" "hash e0 = 32" by fastforce
  have i8: "unat (drop_bit 5 (288 :: uint32)) mod 16 = 9" by simp
  have i0: "unat (drop_bit 5 (32 :: uint32)) mod 16 = 1" by simp
  from bk E mem(1) e8 cap i8 have b8: "8 \<in> reach (heap st') (strs (g_shards st' ! 0) ! 9)"
    "8 \<notin> reach (heap st') (strs (g_shards st' ! 0) ! 1)" by auto
  from bk E mem(2) e0 cap i0 have b0: "0 \<in> reach (heap st') (strs (g_shards st' ! 0) ! 1)" by auto
  have i16: "unat (drop_bit 5 (544 :: uint32)) mod 16 = 1" by simp
  from bk E e16 cap i16 have b16: "16 \<in> reach (heap st') (strs (g_shards st' ! 0) ! 1)"
    unfolding h16 by auto
  from st inv ev none ch r cap b8 b0 b16 d show ?thesis by blast
qed

lemma replicate_update_same [simp]: "(replicate n x)[i := x] = replicate n x"
  by (cases "i < n") (simp_all add: list_eq_iff_nth_eq nth_list_update list_update_beyond)

lemma leak1_step:
  "FindOrCreateInternedSlice 0 (H0 [] (g_hash_seed (grpc_slice_intern_init 0 process_start))) []
     (grpc_slice_intern_init 0 process_start) = Some (Inr (0, leak1))"
  by (simp add: eval_defs leak1_def map_replicate_const)

lemma leak2_step:
  "FindOrCreateInternedSlice 1 (H0 [97] (g_hash_seed leak1)) [97] leak1 = Some (Inr (1, leak2))"
  by (simp add: eval_defs leak1_def leak2_def fun_upd_twist)

lemma dropped_step: "InternedSliceRefcount_dtor 0 leak1 = Some (Inr dropped)"
  by (simp add: eval_defs leak1_def dropped_def)

lemma leak1_facts: "table_inv H0 leak1 \<and> table_entries leak1 = {0}"
proof -
  let ?st = "grpc_slice_intern_init 0 process_start"
  have new: "heap ?st 0 = None" by (simp add: eval_defs)
  have none: "\<forall>a\<in>table_entries ?st. live (heap ?st) a \<longrightarrow> content (heap ?st) a \<noteq> []"
    by simp
  from FindOrCreate_create [OF table_inv_init refl new none, of H0] leak1_step
  show ?thesis by auto
qed

lemma leak2_facts: "table_inv H0 leak2 \<and> table_entries leak2 = {0, 1}"
proof -
  have new: "heap leak1 1 = None" by (simp add: leak1_def)
  have "content (heap leak1) 0 \<noteq> [97]"
    by (simp add: leak1_def content_def InternedSlice_def)
  with leak1_facts
  have none: "\<forall>a\<in>table_entries leak1. live (heap leak1) a \<longrightarrow> content (heap leak1) a \<noteq> [97]"
    by simp
  from leak1_facts have inv: "table_inv H0 leak1" ..
  from FindOrCreate_create [OF inv refl new none] leak2_step leak1_facts
  show ?thesis by auto
qed

lemma dropped_facts: "table_inv H0 dropped \<and> table_entries dropped = {}"
proof -
  from leak1_facts have inv: "table_inv H0 leak1" and m: "0 \<in> table_entries leak1" by simp_all
  from dtor_ok [OF inv m] dropped_step have inv': "table_inv H0 dropped"
    and post: "dtor_post 0 leak1 dropped" by auto
  from inv have len: "length (g_shards leak1) = SHARD_COUNT" by (simp add: table_inv_def)
  from post have "length (g_shards dropped) = length (g_shards leak1)"
    and "\<forall>sj<length (g_shards leak1).
        shard_entries (heap dropped) (g_shards dropped ! sj) =
          shard_entries (heap leak1) (g_shards leak1 ! sj) - {0}"
    by (simp_all add: dtor_post_def)
  then have "table_entries dropped = table_entries leak1 - {0}"
    by (auto simp: table_entries_def)
  with leak1_facts inv' show ?thesis by simp
qed

text \<open>
  C4. In a table that satisfies the invariant, the count of every shard is the number of
  entries reachable from its bucket array. Init establishes the invariant. An intern call
  keeps it: a creating call adds exactly the new entry to the entries of its shard and
  adds one to that count, a matching call changes neither. The destructor of an entry of
  the table keeps it: it removes exactly that entry, and the count of its shard was one
  more before. Growing a shard keeps its count and its set of entries.
\<close>

theorem count_equals_entries:
  "(table_inv H st \<longrightarrow>
      (\<forall>si<SHARD_COUNT. count (g_shards st ! si) =
         card (shard_entries (heap st) (g_shards st ! si)))) \<and>
   table_inv H (grpc_slice_intern_init tv_nsec st0) \<and>
   (table_inv H st \<and> heap st new = None \<longrightarrow>
      (\<exists>a st'. FindOrCreateInternedSlice new (H args (g_hash_seed st)) args st = Some (Inr (a, st')) \<and>
         table_inv H st' \<and>
         ((\<forall>b\<in>table_entries st. \<not> (live (heap st) b \<and> content (heap st) b = args)) \<longrightarrow>
            a = new \<and> new \<notin> table_entries st \<and>
            (\<forall>sj<SHARD_COUNT.
               shard_entries (heap st') (g_shards st' ! sj) =
                 (if sj = SHARD_IDX (H args (g_hash_seed st))
                  then insert new (shard_entries (heap st) (g_shards st ! sj))
                  else shard_entries (heap st) (g_shards st ! sj)) \<and>
               count (g_shards st' ! sj) =
                 (if sj = SHARD_IDX (H args (g_hash_seed st))
                  then count (g_shards st ! sj) + 1 else count (g_shards st ! sj)))) \<and>
         ((\<exists>b\<in>table_entries st. live (heap st) b \<and> content (heap st) b = args) \<longrightarrow>
            g_shards st' = g_shards st \<and>
            (\<forall>sj<SHARD_COUNT.
               shard_entries (heap st') (g_shards st' ! sj) =
                 shard_entries (heap st) (g_shards st ! sj))))) \<and>
   (table_inv H st \<and> this \<in> table_entries st \<longrightarrow>
      (\<exists>st'. InternedSliceRefcount_dtor this st = Some (Inr st') \<and> table_inv H st' \<and>
         (\<forall>sj<SHARD_COUNT.
            shard_entries (heap st') (g_shards st' ! sj) =
              shard_entries (heap st) (g_shards st ! sj) - {this} \<and>
            count (g_shards st ! sj) =
              (if this \<in> shard_entries (heap st) (g_shards st ! sj)
               then count (g_shards st' ! sj) + 1 else count (g_shards st' ! sj))))) \<and>
   (shard_ok H seed h si sh \<longrightarrow>
      (\<exists>h' sh'. grow_shard h sh = Some (Inr (h', sh')) \<and> shard_ok H seed h' si sh' \<and>
         count sh' = count sh \<and> shard_entries h' sh' = shard_entries h sh))"
proof -
  have p1: "\<forall>si<SHARD_COUNT. count (g_shards st ! si) =
         card (shard_entries (heap st) (g_shards st ! si))" if "table_inv H st"
    using that by (simp add: table_inv_def shard_ok_def)
  have p2: "table_inv H (grpc_slice_intern_init tv_nsec st0)" by (rule table_inv_init)
  have p3: "\<exists>a st'. FindOrCreateInternedSlice new (H args (g_hash_seed st)) args st = Some (Inr (a, st')) \<and>
         table_inv H st' \<and>
         ((\<forall>b\<in>table_entries st. \<not> (live (heap st) b \<and> content (heap st) b = args)) \<longrightarrow>
            a = new \<and> new \<notin> table_entries st \<and>
            (\<forall>sj<SHARD_COUNT.
               shard_entries (heap st') (g_shards st' ! sj) =
                 (if sj = SHARD_IDX (H args (g_hash_seed st))
                  then insert new (shard_entries (heap st) (g_shards st ! sj))
                  else shard_entries (heap st) (g_shards st ! sj)) \<and>
               count (g_shards st' ! sj) =
                 (if sj = SHARD_IDX (H args (g_hash_seed st))
                  then count (g_shards st ! sj) + 1 else count (g_shards st ! sj)))) \<and>
         ((\<exists>b\<in>table_entries st. live (heap st) b \<and> content (heap st) b = args) \<longrightarrow>
            g_shards st' = g_shards st \<and>
            (\<forall>sj<SHARD_COUNT.
               shard_entries (heap st') (g_shards st' ! sj) =
                 shard_entries (heap st) (g_shards st ! sj)))"
    if inv: "table_inv H st" and new: "heap st new = None"
  proof -
    let ?hsh = "H args (g_hash_seed st)"
    from inv have len: "length (g_shards st) = SHARD_COUNT" by (simp add: table_inv_def)
    have newE: "new \<notin> table_entries st"
    proof
      assume "new \<in> table_entries st"
      from table_entry [OF inv this] new show False by auto
    qed
    show ?thesis
    proof (cases "\<exists>b\<in>table_entries st. live (heap st) b \<and> content (heap st) b = args")
      case True
      then obtain b where b: "b \<in> table_entries st" "live (heap st) b" "content (heap st) b = args"
        by blast
      from FindOrCreate_match [OF inv refl b, of new] obtain e where
        r: "FindOrCreateInternedSlice new ?hsh args st =
             Some (Inr (b, st\<lparr>heap := (heap st)(b \<mapsto> e\<lparr>refcnt := refcnt e + 1\<rparr>)\<rparr>))"
        and e: "heap st b = Some e"
        and inv': "table_inv H (st\<lparr>heap := (heap st)(b \<mapsto> e\<lparr>refcnt := refcnt e + 1\<rparr>)\<rparr>)"
        by blast
      let ?h' = "(heap st)(b \<mapsto> e\<lparr>refcnt := refcnt e + 1\<rparr>)"
      have same: "shard_entries ?h' (g_shards st ! sj) = shard_entries (heap st) (g_shards st ! sj)"
        if sj: "sj < SHARD_COUNT" for sj
      proof -
        have "?h' = ref_entry (heap st) b" using e by (simp add: ref_entry_def)
        moreover have "shard_ok H (g_hash_seed st) (ref_entry (heap st) b) sj (g_shards st ! sj) \<and>
          shard_entries (ref_entry (heap st) b) (g_shards st ! sj) =
            shard_entries (heap st) (g_shards st ! sj)"
        proof (rule shard_ok_heap_cong [OF table_inv_shard [OF inv sj]])
          fix a assume "a \<in> shard_entries (heap st) (g_shards st ! sj)"
          from shard_entry [OF table_inv_shard [OF inv sj] this]
          obtain e' where "heap st a = Some e'" by blast
          then show "kept (heap st) (ref_entry (heap st) b) a" using b(2) by (rule kept_ref_entry)
        qed
        ultimately show ?thesis by simp
      qed
      let ?st' = "st\<lparr>heap := ?h'\<rparr>"
      have q3: "(\<forall>b\<in>table_entries st. \<not> (live (heap st) b \<and> content (heap st) b = args)) \<longrightarrow>
            b = new \<and> new \<notin> table_entries st \<and>
            (\<forall>sj<SHARD_COUNT.
               shard_entries (heap ?st') (g_shards ?st' ! sj) =
                 (if sj = SHARD_IDX (H args (g_hash_seed st))
                  then insert new (shard_entries (heap st) (g_shards st ! sj))
                  else shard_entries (heap st) (g_shards st ! sj)) \<and>
               count (g_shards ?st' ! sj) =
                 (if sj = SHARD_IDX (H args (g_hash_seed st))
                  then count (g_shards st ! sj) + 1 else count (g_shards st ! sj)))"
        using True by blast
      have q4: "(\<exists>b\<in>table_entries st. live (heap st) b \<and> content (heap st) b = args) \<longrightarrow>
            g_shards ?st' = g_shards st \<and>
            (\<forall>sj<SHARD_COUNT.
               shard_entries (heap ?st') (g_shards ?st' ! sj) =
                 shard_entries (heap st) (g_shards st ! sj))"
        using same by simp
      show ?thesis
        by (intro exI [where x = b] exI [where x = ?st'] conjI r inv' q3 q4)
    next
      case False
      then have "\<forall>a\<in>table_entries st. live (heap st) a \<longrightarrow> content (heap st) a \<noteq> args" by blast
      from FindOrCreate_create [OF inv refl new this] obtain st' where
        r: "FindOrCreateInternedSlice new ?hsh args st = Some (Inr (new, st'))"
        and inv': "table_inv H st'" and post: "create_post new ?hsh args st st'"
        by blast
      have per: "shard_entries (heap st') (g_shards st' ! sj) =
                 (if sj = SHARD_IDX ?hsh
                  then insert new (shard_entries (heap st) (g_shards st ! sj))
                  else shard_entries (heap st) (g_shards st ! sj)) \<and>
               count (g_shards st' ! sj) =
                 (if sj = SHARD_IDX ?hsh
                  then count (g_shards st ! sj) + 1 else count (g_shards st ! sj))"
        if "sj < SHARD_COUNT" for sj
        using post that len by (simp add: create_post_def)
      have q3: "(\<forall>b\<in>table_entries st. \<not> (live (heap st) b \<and> content (heap st) b = args)) \<longrightarrow>
            new = new \<and> new \<notin> table_entries st \<and>
            (\<forall>sj<SHARD_COUNT.
               shard_entries (heap st') (g_shards st' ! sj) =
                 (if sj = SHARD_IDX (H args (g_hash_seed st))
                  then insert new (shard_entries (heap st) (g_shards st ! sj))
                  else shard_entries (heap st) (g_shards st ! sj)) \<and>
               count (g_shards st' ! sj) =
                 (if sj = SHARD_IDX (H args (g_hash_seed st))
                  then count (g_shards st ! sj) + 1 else count (g_shards st ! sj)))"
        using per newE by blast
      have q4: "(\<exists>b\<in>table_entries st. live (heap st) b \<and> content (heap st) b = args) \<longrightarrow>
            g_shards st' = g_shards st \<and>
            (\<forall>sj<SHARD_COUNT.
               shard_entries (heap st') (g_shards st' ! sj) =
                 shard_entries (heap st) (g_shards st ! sj))"
        using False by blast
      show ?thesis
        by (intro exI [where x = new] exI [where x = st'] conjI r inv' q3 q4)
    qed
  qed
  have p4: "\<exists>st'. InternedSliceRefcount_dtor this st = Some (Inr st') \<and> table_inv H st' \<and>
         (\<forall>sj<SHARD_COUNT.
            shard_entries (heap st') (g_shards st' ! sj) =
              shard_entries (heap st) (g_shards st ! sj) - {this} \<and>
            count (g_shards st ! sj) =
              (if this \<in> shard_entries (heap st) (g_shards st ! sj)
               then count (g_shards st' ! sj) + 1 else count (g_shards st' ! sj)))"
    if inv: "table_inv H st" and mem: "this \<in> table_entries st"
  proof -
    from inv have len: "length (g_shards st) = SHARD_COUNT" by (simp add: table_inv_def)
    from dtor_ok [OF inv mem] obtain st' where
      r: "InternedSliceRefcount_dtor this st = Some (Inr st')"
      and inv': "table_inv H st'" and post: "dtor_post this st st'" by blast
    have per: "shard_entries (heap st') (g_shards st' ! sj) =
              shard_entries (heap st) (g_shards st ! sj) - {this} \<and>
            count (g_shards st ! sj) =
              (if this \<in> shard_entries (heap st) (g_shards st ! sj)
               then count (g_shards st' ! sj) + 1 else count (g_shards st' ! sj))"
      if sj: "sj < SHARD_COUNT" for sj
    proof -
      from post sj len have E: "shard_entries (heap st') (g_shards st' ! sj) =
              shard_entries (heap st) (g_shards st ! sj) - {this}"
        and c: "count (g_shards st' ! sj) =
          (if this \<in> shard_entries (heap st) (g_shards st ! sj)
           then count (g_shards st ! sj) - 1 else count (g_shards st ! sj))"
        by (simp_all add: dtor_post_def)
      have "count (g_shards st ! sj) \<noteq> 0" if "this \<in> shard_entries (heap st) (g_shards st ! sj)"
        using p1 [OF inv] sj that finite_shard_entries [of "heap st" "g_shards st ! sj"]
        by auto
      with E c show ?thesis by auto
    qed
    with r inv' show ?thesis by blast
  qed
  have p5: "\<exists>h' sh'. grow_shard h sh = Some (Inr (h', sh')) \<and> shard_ok H seed h' si sh' \<and>
         count sh' = count sh \<and> shard_entries h' sh' = shard_entries h sh"
    if "shard_ok H seed h si sh"
    using grow_shard_ok [OF that] by blast
  from p1 p2 p3 p4 p5 show ?thesis by blast
qed

theorem count_equals_entries_witness:
  "table_inv H0 leak1 \<and> heap leak1 1 = None \<and> 0 \<in> table_entries leak1 \<and>
   shard_ok H0 0 (heap leak1) 0 (g_shards leak1 ! 0) \<and>
   count (g_shards leak1 ! 0) = card (shard_entries (heap leak1) (g_shards leak1 ! 0)) \<and>
   count (g_shards leak1 ! 0) = 1 \<and>
   table_inv H0 (grpc_slice_intern_init 0 process_start) \<and>
   FindOrCreateInternedSlice 1 (H0 [97] (g_hash_seed leak1)) [97] leak1 = Some (Inr (1, leak2)) \<and>
   table_inv H0 leak2 \<and> count (g_shards leak2 ! 1) = count (g_shards leak1 ! 1) + 1 \<and>
   InternedSliceRefcount_dtor 0 leak1 = Some (Inr dropped) \<and> table_inv H0 dropped \<and>
   count (g_shards leak1 ! 0) = count (g_shards dropped ! 0) + 1 \<and>
   (\<exists>h' sh'. grow_shard (heap leak1) (g_shards leak1 ! 0) = Some (Inr (h', sh')) \<and>
      count sh' = count (g_shards leak1 ! 0) \<and>
      shard_entries h' sh' = shard_entries (heap leak1) (g_shards leak1 ! 0))"
proof -
  note inst = count_equals_entries [of H0 leak1 0 process_start 1 "[97]" 0 0 "heap leak1" 0
      "g_shards leak1 ! 0"]
  note i1 = inst [THEN conjunct1]
    and i2 = inst [THEN conjunct2, THEN conjunct1]
    and i3 = inst [THEN conjunct2, THEN conjunct2, THEN conjunct1]
    and i4 = inst [THEN conjunct2, THEN conjunct2, THEN conjunct2, THEN conjunct1]
    and i5 = inst [THEN conjunct2, THEN conjunct2, THEN conjunct2, THEN conjunct2]
  from leak1_facts have inv: "table_inv H0 leak1" and m: "0 \<in> table_entries leak1" by simp_all
  have new: "heap leak1 1 = None" by (simp add: leak1_def)
  have seed: "g_hash_seed leak1 = 0" by (simp add: leak1_def)
  have ok: "shard_ok H0 0 (heap leak1) 0 (g_shards leak1 ! 0)"
    using table_inv_shard [OF inv, of 0] by (simp add: SHARD_COUNT_32 seed)
  from i1 inv have c: "count (g_shards leak1 ! 0) =
      card (shard_entries (heap leak1) (g_shards leak1 ! 0))"
    by (simp add: SHARD_COUNT_32)
  have c1: "count (g_shards leak1 ! 0) = 1" by (simp add: leak1_def)
  from i3 inv new obtain a st' where
    "FindOrCreateInternedSlice 1 (H0 [97] (g_hash_seed leak1)) [97] leak1 = Some (Inr (a, st'))"
    "table_inv H0 st'" by blast
  with leak2_step have v2: "table_inv H0 leak2" by simp
  have c2: "count (g_shards leak2 ! 1) = count (g_shards leak1 ! 1) + 1"
    by (simp add: leak1_def leak2_def)
  from i4 inv m obtain st'' where
    "InternedSliceRefcount_dtor 0 leak1 = Some (Inr st'')" "table_inv H0 st''" by blast
  with dropped_step have v3: "table_inv H0 dropped" by simp
  have c3: "count (g_shards leak1 ! 0) = count (g_shards dropped ! 0) + 1"
    by (simp add: leak1_def dropped_def)
  from i5 ok have g: "\<exists>h' sh'. grow_shard (heap leak1) (g_shards leak1 ! 0) = Some (Inr (h', sh')) \<and>
      count sh' = count (g_shards leak1 ! 0) \<and>
      shard_entries h' sh' = shard_entries (heap leak1) (g_shards leak1 ! 0)"
    by blast
  show ?thesis
    by (intro conjI inv new m ok c c1 i2 leak2_step v2 c2 dropped_step v3 c3 g)
qed




lemma takeWhile_shorter: "\<exists>x\<in>set xs. \<not> P x \<Longrightarrow> length (takeWhile P xs) < length xs"
  by (induction xs) auto

lemma leaked_texts_shutdown:
  assumes inv: "table_inv H st"
  shows "\<exists>evs r. grpc_slice_intern_shutdown dump aol st = Some (Inr (evs, r)) \<and>
     leaked_texts evs = leaked_texts (fst (shards_events dump aol (heap st) 0 (g_shards st))) \<and>
     warnings evs = warnings (fst (shards_events dump aol (heap st) 0 (g_shards st)))"
  unfolding shutdown_ok [OF inv] by (cases "snd (shards_events dump aol (heap st) 0 (g_shards st))") simp_all

lemma shards_events_strict:
  assumes "\<exists>sh\<in>set shs. count sh \<noteq> 0"
  shows "leaked_texts (fst (shards_events dump True h i shs)) =
           map (\<lambda>a. dump (content h a))
             (shard_addrs h (shs ! length (takeWhile (\<lambda>sh. count sh = 0) shs))) \<and>
         warnings (fst (shards_events dump True h i shs)) =
           [count (shs ! length (takeWhile (\<lambda>sh. count sh = 0) shs))]"
  using assms
proof (induction shs arbitrary: i)
  case Nil
  then show ?case by simp
next
  case (Cons sh shs)
  show ?case
  proof (cases "count sh = 0")
    case True
    with Cons.prems have "\<exists>sh\<in>set shs. count sh \<noteq> 0" by simp
    from Cons.IH [OF this, of "Suc i"] True show ?thesis by simp
  next
    case False
    then show ?thesis by simp
  qed
qed

lemma first_nonzero:
  assumes "\<exists>sh\<in>set shs. count sh \<noteq> 0"
  shows "length (takeWhile (\<lambda>sh. count sh = 0) shs) < length shs \<and>
         count (shs ! length (takeWhile (\<lambda>sh. count sh = 0) shs)) \<noteq> 0 \<and>
         (\<forall>i<length (takeWhile (\<lambda>sh. count sh = 0) shs). count (shs ! i) = 0)"
proof -
  let ?k = "length (takeWhile (\<lambda>sh. count sh = 0) shs)"
  from takeWhile_shorter [of shs "\<lambda>sh. count sh = 0"] assms have k: "?k < length shs" by simp
  from nth_length_takeWhile [OF k] have nz: "count (shs ! ?k) \<noteq> 0" .
  have "count (shs ! i) = 0" if "i < ?k" for i
  proof -
    from that have "takeWhile (\<lambda>sh. count sh = 0) shs ! i \<in> set (takeWhile (\<lambda>sh. count sh = 0) shs)"
      by (rule nth_mem)
    from set_takeWhileD [OF this] takeWhile_nth [OF that] show ?thesis by simp
  qed
  with k nz show ?thesis by blast
qed

lemma other_shard_more:
  assumes inv: "table_inv H st" and k: "k < 32" and j: "j < 32" and ne: "j \<noteq> k"
    and nz: "count (g_shards st ! j) \<noteq> 0"
  shows "count (g_shards st ! k) < card (table_entries st)"
proof -
  let ?A = "shard_entries (heap st) (g_shards st ! k)"
  let ?B = "shard_entries (heap st) (g_shards st ! j)"
  from inv have len: "length (g_shards st) = 32" by (simp add: table_inv_def SHARD_COUNT_32)
  from k j have okk: "shard_ok H (g_hash_seed st) (heap st) k (g_shards st ! k)"
    and okj: "shard_ok H (g_hash_seed st) (heap st) j (g_shards st ! j)"
    using table_inv_shard [OF inv] by (simp_all add: SHARD_COUNT_32)
  from okj nz have "card ?B \<noteq> 0" by (simp add: shard_ok_def)
  then obtain b where b: "b \<in> ?B" by (cases "?B = {}") auto
  from shards_disjoint [OF okj okk b] ne have nb: "b \<notin> ?A" by blast
  from table_entries_shard [of k st] table_entries_shard [of j st] k j len b
  have sub: "?A \<subseteq> table_entries st" and bt: "b \<in> table_entries st" by auto
  from sub bt nb have ps: "?A \<subset> table_entries st" by blast
  from table_addrs_ok [OF inv] have "finite (table_entries st)"
    by (metis List.finite_set)
  from psubset_card_mono [OF this ps] okk show ?thesis by (simp add: shard_ok_def)
qed

text \<open>
  C6 (amended). In a table that satisfies the invariant shutdown returns. When strict
  leak detection is not configured, or at most one shard has a nonzero count, it logs
  exactly one LEAKED line for each entry that remains in the table, whatever the shards
  that hold them: the lines are the dumps of the bytes of the entries, each entry once,
  so there are as many as entries. With no entry in the table there is no LEAKED line and
  no WARNING line. When strict leak detection is configured and an entry remains, it
  aborts at the first shard with a nonzero count, after one WARNING line and the LEAKED
  lines of the entries of that shard, each once: the entries of later shards are not
  reported, so when another shard holds an entry there are fewer lines than entries.
\<close>

theorem shutdown_leak_lines:
  assumes inv: "table_inv H st"
  shows "\<exists>evs r. grpc_slice_intern_shutdown dump abort_on_leaks st = Some (Inr (evs, r)) \<and>
     distinct (table_addrs st) \<and> set (table_addrs st) = table_entries st \<and>
     ((abort_on_leaks \<longrightarrow> length (filter (\<lambda>sh. count sh \<noteq> 0) (g_shards st)) \<le> 1) \<longrightarrow>
        leaked_texts evs = map (\<lambda>a. dump (content (heap st) a)) (table_addrs st) \<and>
        length (leaked_texts evs) = card (table_entries st)) \<and>
     (table_entries st = {} \<longrightarrow> leaked_texts evs = [] \<and> warnings evs = []) \<and>
     (abort_on_leaks \<and> table_entries st \<noteq> {} \<longrightarrow>
        (\<exists>k<32. count (g_shards st ! k) \<noteq> 0 \<and> (\<forall>i<k. count (g_shards st ! i) = 0) \<and>
           r = None \<and> last evs = Abort \<and>
           warnings evs = [count (g_shards st ! k)] \<and>
           leaked_texts evs =
             map (\<lambda>a. dump (content (heap st) a)) (shard_addrs (heap st) (g_shards st ! k)) \<and>
           distinct (shard_addrs (heap st) (g_shards st ! k)) \<and>
           set (shard_addrs (heap st) (g_shards st ! k)) =
             shard_entries (heap st) (g_shards st ! k) \<and>
           length (leaked_texts evs) = count (g_shards st ! k) \<and>
           ((\<exists>j<32. j \<noteq> k \<and> count (g_shards st ! j) \<noteq> 0) \<longrightarrow>
              length (leaked_texts evs) < card (table_entries st))))"
proof -
  let ?ev = "shards_events dump abort_on_leaks (heap st) 0 (g_shards st)"
  from leaked_texts_shutdown [OF inv, of dump abort_on_leaks] obtain evs r where
    r: "grpc_slice_intern_shutdown dump abort_on_leaks st = Some (Inr (evs, r))"
    and l: "leaked_texts evs = leaked_texts (fst ?ev)"
    and w: "warnings evs = warnings (fst ?ev)"
    by blast
  from inv have len: "length (g_shards st) = 32" by (simp add: table_inv_def SHARD_COUNT_32)
  from table_addrs_ok [OF inv] have s: "set (table_addrs st) = table_entries st"
    and d: "distinct (table_addrs st)" by simp_all
  have all: "leaked_texts evs = map (\<lambda>a. dump (content (heap st) a)) (table_addrs st) \<and>
        length (leaked_texts evs) = card (table_entries st)"
    if one: "abort_on_leaks \<longrightarrow> length (filter (\<lambda>sh. count sh \<noteq> 0) (g_shards st)) \<le> 1"
  proof -
    from shards_events_leaked [OF one count_zero_addrs [OF inv], of dump 0] l
    have lt: "leaked_texts evs = map (\<lambda>a. dump (content (heap st) a)) (table_addrs st)"
      by (simp add: table_addrs_def)
    with d s distinct_card [OF d] show ?thesis by simp
  qed
  have e: "leaked_texts evs = [] \<and> warnings evs = []" if "table_entries st = {}"
  proof -
    from that count_zero_iff [OF inv] have z: "\<forall>sh\<in>set (g_shards st). count sh = 0" by simp
    from shards_events_warnings [OF z] w have "warnings evs = []" by simp
    moreover from z have "abort_on_leaks \<longrightarrow> length (filter (\<lambda>sh. count sh \<noteq> 0) (g_shards st)) \<le> 1"
      by (simp add: filter_False)
    from all [OF this] that s have "leaked_texts evs = []" by simp
    ultimately show ?thesis by simp
  qed
  have strict: "\<exists>k<32. count (g_shards st ! k) \<noteq> 0 \<and> (\<forall>i<k. count (g_shards st ! i) = 0) \<and>
           r = None \<and> last evs = Abort \<and>
           warnings evs = [count (g_shards st ! k)] \<and>
           leaked_texts evs =
             map (\<lambda>a. dump (content (heap st) a)) (shard_addrs (heap st) (g_shards st ! k)) \<and>
           distinct (shard_addrs (heap st) (g_shards st ! k)) \<and>
           set (shard_addrs (heap st) (g_shards st ! k)) =
             shard_entries (heap st) (g_shards st ! k) \<and>
           length (leaked_texts evs) = count (g_shards st ! k) \<and>
           ((\<exists>j<32. j \<noteq> k \<and> count (g_shards st ! j) \<noteq> 0) \<longrightarrow>
              length (leaked_texts evs) < card (table_entries st))"
    if st: "abort_on_leaks \<and> table_entries st \<noteq> {}"
  proof -
    let ?k = "length (takeWhile (\<lambda>sh. count sh = 0) (g_shards st))"
    let ?sh = "g_shards st ! ?k"
    from st have aol: "abort_on_leaks = True" by simp
    from st count_zero_iff [OF inv] have ex: "\<exists>sh\<in>set (g_shards st). count sh \<noteq> 0" by blast
    from first_nonzero [OF ex] len have k: "?k < 32" and nz: "count ?sh \<noteq> 0"
      and z: "\<forall>i<?k. count (g_shards st ! i) = 0" by simp_all
    from shards_events_abort [OF _ ex, of abort_on_leaks dump "heap st" 0] aol
    have a: "snd ?ev = True" "last (fst ?ev) = Abort" by simp_all
    with r shutdown_ok [OF inv, of dump abort_on_leaks] have ra: "r = None" "evs = fst ?ev"
      by simp_all
    from shards_events_strict [OF ex, of dump "heap st" 0] l w aol
    have lw: "leaked_texts evs = map (\<lambda>a. dump (content (heap st) a)) (shard_addrs (heap st) ?sh)"
      "warnings evs = [count ?sh]" by simp_all
    from k have "shard_ok H (g_hash_seed st) (heap st) ?k ?sh"
      using table_inv_shard [OF inv] by (simp add: SHARD_COUNT_32)
    from shard_addrs_ok [OF this] have sa: "set (shard_addrs (heap st) ?sh) = shard_entries (heap st) ?sh"
      "distinct (shard_addrs (heap st) ?sh)" "length (shard_addrs (heap st) ?sh) = count ?sh"
      by simp_all
    from lw(1) sa(3) have n: "length (leaked_texts evs) = count ?sh" by simp
    have less: "length (leaked_texts evs) < card (table_entries st)"
      if "\<exists>j<32. j \<noteq> ?k \<and> count (g_shards st ! j) \<noteq> 0"
    proof -
      from that obtain j where "j < 32" "j \<noteq> ?k" "count (g_shards st ! j) \<noteq> 0" by blast
      from other_shard_more [OF inv k this] n show ?thesis by simp
    qed
    from k nz z ra(1) a(2) ra(2) lw sa(1,2) n less show ?thesis
      by (intro exI [where x = ?k]) simp
  qed
  from r d s all e strict show ?thesis by blast
qed

theorem shutdown_leak_lines_witness:
  "table_inv H0 leak2 \<and> card (table_entries leak2) = 2 \<and>
   count (g_shards leak2 ! 0) = 1 \<and> count (g_shards leak2 ! 1) = 1 \<and>
   (\<exists>evs. grpc_slice_intern_shutdown dump0 False leak2 =
        Some (Inr (evs, Some (leak2\<lparr>g_shards := []\<rparr>))) \<and>
      length (leaked_texts evs) = 2 \<and> leaked_texts evs = [dump0 [], dump0 [97]]) \<and>
   (\<exists>evs. grpc_slice_intern_shutdown dump0 True leak2 = Some (Inr (evs, None)) \<and>
      last evs = Abort \<and> warnings evs = [1] \<and> length (leaked_texts evs) = 1 \<and>
      length (leaked_texts evs) < card (table_entries leak2))"
proof -
  from leak2_facts have inv: "table_inv H0 leak2" and c: "card (table_entries leak2) = 2"
    and ne: "table_entries leak2 \<noteq> {}"
    by simp_all
  have cnt: "count (g_shards leak2 ! 0) = 1" "count (g_shards leak2 ! 1) = 1"
    by (simp_all add: leak2_def)
  from shutdown_leak_lines [OF inv, of dump0 False] c obtain evs r where
    r: "grpc_slice_intern_shutdown dump0 False leak2 = Some (Inr (evs, r))"
    "length (leaked_texts evs) = 2" by auto
  have "\<exists>evs. grpc_slice_intern_shutdown dump0 False leak2 =
        Some (Inr (evs, Some (leak2\<lparr>g_shards := []\<rparr>))) \<and>
      leaked_texts evs = [dump0 [], dump0 [97]]"
    by (simp add: eval_defs leak2_def eval_nat_numeral)
  with r have a: "\<exists>evs. grpc_slice_intern_shutdown dump0 False leak2 =
        Some (Inr (evs, Some (leak2\<lparr>g_shards := []\<rparr>))) \<and>
      length (leaked_texts evs) = 2 \<and> leaked_texts evs = [dump0 [], dump0 [97]]" by auto
  from shutdown_leak_lines [OF inv, of dump0 True] obtain evs' r' where
    s0: "grpc_slice_intern_shutdown dump0 True leak2 = Some (Inr (evs', r'))"
    and st: "True \<and> table_entries leak2 \<noteq> {} \<longrightarrow>
        (\<exists>k<32. count (g_shards leak2 ! k) \<noteq> 0 \<and> (\<forall>i<k. count (g_shards leak2 ! i) = 0) \<and>
           r' = None \<and> last evs' = Abort \<and>
           warnings evs' = [count (g_shards leak2 ! k)] \<and>
           leaked_texts evs' =
             map (\<lambda>a. dump0 (content (heap leak2) a)) (shard_addrs (heap leak2) (g_shards leak2 ! k)) \<and>
           distinct (shard_addrs (heap leak2) (g_shards leak2 ! k)) \<and>
           set (shard_addrs (heap leak2) (g_shards leak2 ! k)) =
             shard_entries (heap leak2) (g_shards leak2 ! k) \<and>
           length (leaked_texts evs') = count (g_shards leak2 ! k) \<and>
           ((\<exists>j<32. j \<noteq> k \<and> count (g_shards leak2 ! j) \<noteq> 0) \<longrightarrow>
              length (leaked_texts evs') < card (table_entries leak2)))"
    by blast
  from st ne obtain k where
    s: "r' = None"
    "k < 32" "count (g_shards leak2 ! k) \<noteq> 0" "\<forall>i<k. count (g_shards leak2 ! i) = 0"
    "last evs' = Abort" "warnings evs' = [count (g_shards leak2 ! k)]"
    "length (leaked_texts evs') = count (g_shards leak2 ! k)"
    "(\<exists>j<32. j \<noteq> k \<and> count (g_shards leak2 ! j) \<noteq> 0) \<longrightarrow>
       length (leaked_texts evs') < card (table_entries leak2)"
    by blast
  from s(4) cnt(1) have k0: "k = 0" by (cases "k = 0") auto
  from cnt(2) have "\<exists>j<32. j \<noteq> (0::nat) \<and> count (g_shards leak2 ! j) \<noteq> 0"
    by (intro exI [where x = 1]) simp
  with s0 s k0 cnt have b: "\<exists>evs. grpc_slice_intern_shutdown dump0 True leak2 = Some (Inr (evs, None)) \<and>
      last evs = Abort \<and> warnings evs = [1] \<and> length (leaked_texts evs) = 1 \<and>
      length (leaked_texts evs) < card (table_entries leak2)"
    by (intro exI [where x = evs']) simp
  from inv c cnt a b show ?thesis by blast
qed

text \<open>C6, as stated, fails in strict mode: two entries remain, in shards 0 and 1, and
  shutdown logs one LEAKED line, then aborts at shard 0.\<close>

theorem shutdown_leak_lines_counterexample:
  "run H0 dump0 [Call_init 0, Call_intern 0 [], Call_intern 1 [97]] process_start = Some leak2 \<and>
   card (table_entries leak2) = 2 \<and>
   grpc_slice_intern_shutdown dump0 True leak2 =
     Some (Inr ([Log_warning 1, Log_leaked (dump0 []), Gpr_free_text, Abort], None)) \<and>
   leaked_texts [Log_warning 1, Log_leaked (dump0 []), Gpr_free_text, Abort] = [dump0 []]"
proof -
  have "run H0 dump0 [Call_init 0, Call_intern 0 [], Call_intern 1 [97]] process_start = Some leak2"
    by (simp add: eval_defs leak2_def map_replicate_const fun_upd_twist)
  moreover from leak2_facts have "card (table_entries leak2) = 2" by simp
  moreover have "grpc_slice_intern_shutdown dump0 True leak2 =
     Some (Inr ([Log_warning 1, Log_leaked (dump0 []), Gpr_free_text, Abort], None))"
    by (simp add: eval_defs leak2_def eval_nat_numeral)
  moreover have "leaked_texts [Log_warning 1, Log_leaked (dump0 []), Gpr_free_text, Abort] = [dump0 []]"
    by simp
  ultimately show ?thesis by blast
qed

text \<open>
  C7 (amended). In a table that satisfies the invariant shutdown returns. Unless strict
  leak detection is configured and an entry remains, it frees the bucket array of each of
  the 32 shards, in order, then the shard array, whether entries leaked or not, and leaves
  the entries where they are. When strict leak detection is configured and an entry
  remains, it aborts at the first shard with a nonzero count: the bucket arrays of the
  shards before it are freed, that of this shard and of the later ones and the shard array
  are not.
\<close>

theorem shutdown_frees:
  assumes inv: "table_inv H st"
  shows "\<exists>evs r. grpc_slice_intern_shutdown dump abort_on_leaks st = Some (Inr (evs, r)) \<and>
     (\<not> (abort_on_leaks \<and> table_entries st \<noteq> {}) \<longrightarrow>
        freed_strs evs = [0..<32] \<and> last evs = Delete_g_shards \<and>
        Delete_g_shards \<notin> set (butlast evs) \<and> Abort \<notin> set evs \<and>
        r = Some (st\<lparr>g_shards := []\<rparr>)) \<and>
     (abort_on_leaks \<and> table_entries st \<noteq> {} \<longrightarrow>
        r = None \<and> last evs = Abort \<and> Delete_g_shards \<notin> set evs \<and>
        freed_strs evs = [0..<length (takeWhile (\<lambda>sh. count sh = 0) (g_shards st))] \<and>
        length (takeWhile (\<lambda>sh. count sh = 0) (g_shards st)) < 32)"
proof (cases "abort_on_leaks \<and> table_entries st \<noteq> {}")
  case True
  let ?ev = "shards_events dump abort_on_leaks (heap st) 0 (g_shards st)"
  from inv have len: "length (g_shards st) = 32" by (simp add: table_inv_def SHARD_COUNT_32)
  from True count_zero_iff [OF inv] have ex: "\<exists>sh\<in>set (g_shards st). count sh \<noteq> 0" by blast
  from True have aol: abort_on_leaks ..
  from shards_events_abort [OF aol ex, of dump "heap st" 0]
  have a: "snd ?ev = True"
    "freed_strs (fst ?ev) = [0..<length (takeWhile (\<lambda>sh. count sh = 0) (g_shards st))]"
    "last (fst ?ev) = Abort" "Delete_g_shards \<notin> set (fst ?ev)"
    by simp_all
  from takeWhile_shorter [of "g_shards st" "\<lambda>sh. count sh = 0"] ex len
  have "length (takeWhile (\<lambda>sh. count sh = 0) (g_shards st)) < 32" by simp
  with a True shutdown_ok [OF inv, of dump abort_on_leaks] show ?thesis by simp
next
  case False
  let ?ev = "shards_events dump abort_on_leaks (heap st) 0 (g_shards st)"
  from inv have len: "length (g_shards st) = 32" by (simp add: table_inv_def SHARD_COUNT_32)
  from False count_zero_iff [OF inv]
  have "abort_on_leaks \<longrightarrow> (\<forall>sh\<in>set (g_shards st). count sh = 0)" by blast
  from shards_events_no_abort [OF this, of dump "heap st" 0] len
  have a: "snd ?ev = False" "freed_strs (fst ?ev) = [0..<32]" "Abort \<notin> set (fst ?ev)"
    "Delete_g_shards \<notin> set (fst ?ev)"
    by simp_all
  with False shutdown_ok [OF inv, of dump abort_on_leaks] show ?thesis by simp
qed

theorem shutdown_frees_witness:
  "table_inv H0 leak2 \<and> table_entries leak2 \<noteq> {} \<and>
   (\<exists>evs. grpc_slice_intern_shutdown dump0 False leak2 =
        Some (Inr (evs, Some (leak2\<lparr>g_shards := []\<rparr>))) \<and>
      freed_strs evs = [0..<32] \<and> last evs = Delete_g_shards \<and> Abort \<notin> set evs) \<and>
   (\<exists>evs. grpc_slice_intern_shutdown dump0 True leak2 = Some (Inr (evs, None)) \<and>
      last evs = Abort \<and> Delete_g_shards \<notin> set evs \<and> freed_strs evs = [])"
proof -
  from leak2_facts have inv: "table_inv H0 leak2" and ne: "table_entries leak2 \<noteq> {}"
    by simp_all
  from shutdown_frees [OF inv, of dump0 False]
  have a: "\<exists>evs. grpc_slice_intern_shutdown dump0 False leak2 =
        Some (Inr (evs, Some (leak2\<lparr>g_shards := []\<rparr>))) \<and>
      freed_strs evs = [0..<32] \<and> last evs = Delete_g_shards \<and> Abort \<notin> set evs"
    by auto
  have tw: "takeWhile (\<lambda>sh. count sh = 0) (g_shards leak2) = []"
    by (simp add: leak2_def eval_nat_numeral)
  from shutdown_frees [OF inv, of dump0 True] ne
  have b: "\<exists>evs. grpc_slice_intern_shutdown dump0 True leak2 = Some (Inr (evs, None)) \<and>
      last evs = Abort \<and> Delete_g_shards \<notin> set evs \<and> freed_strs evs = []"
    by (auto simp: tw)
  from inv ne a b show ?thesis by blast
qed

text \<open>C7, as stated, fails in strict mode: with one entry left, in shard 0, shutdown
  aborts before it frees any bucket array or the shard array.\<close>

theorem shutdown_frees_counterexample:
  "run H0 dump0 [Call_init 0, Call_intern 0 []] process_start = Some leak1 \<and>
   grpc_slice_intern_shutdown dump0 True leak1 =
     Some (Inr ([Log_warning 1, Log_leaked (dump0 []), Gpr_free_text, Abort], None)) \<and>
   freed_strs [Log_warning 1, Log_leaked (dump0 []), Gpr_free_text, Abort] = [] \<and>
   Delete_g_shards \<notin> set [Log_warning 1, Log_leaked (dump0 []), Gpr_free_text, Abort]"
proof -
  have "run H0 dump0 [Call_init 0, Call_intern 0 []] process_start = Some leak1"
    by (simp add: eval_defs leak1_def map_replicate_const)
  moreover have "grpc_slice_intern_shutdown dump0 True leak1 =
     Some (Inr ([Log_warning 1, Log_leaked (dump0 []), Gpr_free_text, Abort], None))"
    by (simp add: eval_defs leak1_def eval_nat_numeral)
  moreover have "freed_strs [Log_warning 1, Log_leaked (dump0 []), Gpr_free_text, Abort] = []"
    by simp
  moreover have "Delete_g_shards \<notin> set [Log_warning 1, Log_leaked (dump0 []), Gpr_free_text, Abort]"
    by simp
  ultimately show ?thesis by blast
qed

end
